theory Spec2Isabelle
  imports Main "HOL-Library.Word"
begin

text \<open>
  A model of the Simple LMK reclaim engine (\<open>drivers/staging/android/simple_lmk.c\<close>) and of
  the max-boost request of the CPU input boost driver (\<open>drivers/cpufreq/cpu_input_boost.c\<close>),
  with the properties of the scan, of the reclaim pass, of the tiers, of the two triggers
  and of the boost coalescing. The first part holds the definitions, translated from the
  C functions; the second part holds the lemmas and theorems.
\<close>

section \<open>Machine types and constants\<close>

text \<open>
  The target (msm8998) is a 64-bit ARM platform: \<open>unsigned long\<close> is a 64-bit word whose
  arithmetic wraps around, \<open>int\<close> and \<open>unsigned int\<close> are 32-bit words and \<open>short\<close> is a
  16-bit word. Signed comparisons read the words with \<open>sint\<close>.
\<close>

type_synonym ulong = "64 word"
type_synonym cint = "32 word"
type_synonym cshort = "16 word"

text \<open>
  Modelled from the spec: \<open>SZ_1M\<close> (\<open>linux/sizes.h\<close>) and \<open>MAX_RT_PRIO\<close>
  (\<open>linux/sched/prio.h\<close>) are constants of headers outside the sources: one mebibyte, and
  the number of real-time priorities, so that \<open>MAX_RT_PRIO - 1\<close> is "the highest real-time
  class" of the spec. \<open>SZ_1M\<close> is an \<open>int\<close> constant that C converts to the type of the
  expression it stands in, so it is a word of either width.
\<close>

definition SZ_1M :: "'a::len word" where
  "SZ_1M = 0x100000"

definition BOOST_DURATION_MS :: cint where
  "BOOST_DURATION_MS = 250"

definition MAX_RT_PRIO :: nat where
  "MAX_RT_PRIO = 100"

text \<open>The boundary table of \<open>simple_lmk.c\<close>, least important first.\<close>

definition adj_prio :: "cshort list" where
  "adj_prio = [906, 900, 800, 700, 600, 500, 400, 300, 200, 100, 0]"

text \<open>
  Values that come from headers and the kernel configuration, which are not part of the
  sources: the two rate-limit intervals (in jiffies), the configured free-memory target in
  MiB, the page size and the conversion from milliseconds to jiffies.
\<close>

record lmk_config =
  LMK_KSWAPD_TIMEOUT :: ulong
  LMK_OOM_TIMEOUT :: ulong
  CONFIG_ANDROID_SIMPLE_LMK_MINFREE :: cint
  PAGE_SIZE :: ulong
  msecs_to_jiffies :: "cint \<Rightarrow> ulong"

text \<open>
  \<open>MIN_FREE_PAGES\<close> is \<open>CONFIG_ANDROID_SIMPLE_LMK_MINFREE * SZ_1M / PAGE_SIZE\<close>: the two \<open>int\<close>
  constants are multiplied as \<open>int\<close>, and the product is converted to \<open>unsigned long\<close> (with
  its sign) for the division by the page size. From 2048 MiB up the \<open>int\<close> product
  overflows, which C leaves undefined; here it wraps in two's complement.
\<close>

definition MIN_FREE_PAGES :: "lmk_config \<Rightarrow> ulong" where
  "MIN_FREE_PAGES cfg =
     scast (CONFIG_ANDROID_SIMPLE_LMK_MINFREE cfg * (SZ_1M :: cint)) div PAGE_SIZE cfg"

text \<open>
  Modelled from the spec: the macros \<open>time_after\<close> and \<open>time_after_eq\<close> of
  \<open>linux/jiffies.h\<close> are not among the sources. The spec reads them as "a longer boost is
  in effect" and "the minimum interval has elapsed since the last reclaim"; they are the
  kernel's wrap-safe comparisons of two jiffies values, the sign of the 64-bit difference.
\<close>

definition time_after :: "ulong \<Rightarrow> ulong \<Rightarrow> bool" where
  "time_after a b = (sint (b - a) < 0)"

definition time_after_eq :: "ulong \<Rightarrow> ulong \<Rightarrow> bool" where
  "time_after_eq a b = (0 \<le> sint (a - b))"

section \<open>The boost driver (cpu_input_boost.c)\<close>

record boost_drv =
  max_boost_expires :: ulong
  max_boost_dur :: cint
  boost_state :: cint
  max_boost_queued :: nat

text \<open>
  \<open>atomic64_cmpxchg(v, o, n)\<close> of \<open>atomic_64.h\<close> is \<open>cmpxchg\<close> on the counter: it stores
  \<open>n\<close> when the counter holds \<open>o\<close> and returns the value the counter held. The result is
  the pair of the counter's new content and the returned value.
\<close>

definition atomic64_cmpxchg :: "ulong \<Rightarrow> ulong \<Rightarrow> ulong \<Rightarrow> ulong \<times> ulong" where
  "atomic64_cmpxchg v o_val n = (if v = o_val then (n, v) else (v, v))"

text \<open>
  The tail of \<open>__cpu_input_boost_kick_max\<close> after a successful exchange: the duration is
  published and the boost work is queued (\<open>max_boost_queued\<close> counts the queue requests).
\<close>

definition kick_max_commit :: "boost_drv \<Rightarrow> cint \<Rightarrow> boost_drv" where
  "kick_max_commit b duration_ms =
     b\<lparr>max_boost_dur := duration_ms, max_boost_queued := Suc (max_boost_queued b)\<rparr>"

text \<open>
  \<open>__cpu_input_boost_kick_max\<close>. The loop reads the stored expiry and the clock, gives up
  when a later expiry is stored, and otherwise tries to exchange. Other CPUs may store to
  the expiry between the read and the exchange: the last argument lists, for each attempt
  that is disturbed, the value another CPU stored in between and the clock value the next
  attempt then reads. When the list is exhausted the exchange is undisturbed. An exchange
  whose comparison fails leaves the counter alone and the loop runs again.
\<close>

fun do_cpu_input_boost_kick_max ::
  "(cint \<Rightarrow> ulong) \<Rightarrow> boost_drv \<Rightarrow> cint \<Rightarrow> ulong \<Rightarrow> (ulong \<times> ulong) list \<Rightarrow> boost_drv" where
  "do_cpu_input_boost_kick_max m2j b duration_ms jiffies_now [] =
     (let curr_expires = max_boost_expires b;
          new_expires = jiffies_now + m2j duration_ms
      in if time_after curr_expires new_expires then b
         else (case atomic64_cmpxchg (max_boost_expires b) curr_expires new_expires of
                 (stored, old) \<Rightarrow> kick_max_commit (b\<lparr>max_boost_expires := stored\<rparr>) duration_ms))"
| "do_cpu_input_boost_kick_max m2j b duration_ms jiffies_now ((other, jiffies_next) # rest) =
     (let curr_expires = max_boost_expires b;
          new_expires = jiffies_now + m2j duration_ms
      in if time_after curr_expires new_expires then b
         else (case atomic64_cmpxchg other curr_expires new_expires of
                 (stored, old) \<Rightarrow>
                   if old \<noteq> curr_expires
                   then do_cpu_input_boost_kick_max m2j (b\<lparr>max_boost_expires := stored\<rparr>)
                          duration_ms jiffies_next rest
                   else kick_max_commit (b\<lparr>max_boost_expires := stored\<rparr>) duration_ms))"

section \<open>Processes\<close>

datatype sched_policy = SCHED_NORMAL | SCHED_FIFO

text \<open>
  A process as the scan sees it. \<open>mm_rss\<close> is \<open>None\<close> when no thread of the process has a
  memory context (then \<open>find_lock_task_mm\<close> returns NULL) and otherwise holds what
  \<open>get_mm_rss\<close> reads. \<open>sighand_present\<close> says whether a signal can still be delivered;
  \<open>sigkills_delivered\<close> counts the SIGKILLs that \<open>do_send_sig_info\<close> delivered to the
  process, so that the theorems can say who was signalled and how often.
\<close>

record task_struct =
  pid :: nat
  same_thread_group_current :: bool
  pf_kthread :: bool
  mm_rss :: "ulong option"
  lmk_sigkill_sent :: bool
  tif_memdie :: bool
  oom_score_adj :: cshort
  sighand_present :: bool
  sigkills_delivered :: nat
  policy :: sched_policy
  rt_priority :: nat

text \<open>
  Modelled from the spec: \<open>find_lock_task_mm\<close>, \<open>do_send_sig_info\<close> and
  \<open>sched_setscheduler_nocheck\<close> are kernel primitives outside the sources. The spec gives
  them as: a process with no attached memory context is skipped; delivering the forced
  termination signal returns success or failure and fails when the process is already
  gone; the victim is raised to the highest real-time class.
\<close>

definition find_lock_task_mm :: "task_struct \<Rightarrow> task_struct option" where
  "find_lock_task_mm tsk = (if mm_rss tsk = None then None else Some tsk)"

definition get_mm_rss :: "task_struct \<Rightarrow> ulong" where
  "get_mm_rss victim = (case mm_rss victim of None \<Rightarrow> 0 | Some n \<Rightarrow> n)"

definition do_send_sig_info :: "task_struct \<Rightarrow> cint \<times> task_struct" where
  "do_send_sig_info victim =
     (if sighand_present victim
      then (0, victim\<lparr>sigkills_delivered := Suc (sigkills_delivered victim)\<rparr>)
      else (- 3, victim))"

definition sched_setscheduler_nocheck :: "task_struct \<Rightarrow> sched_policy \<Rightarrow> nat \<Rightarrow> task_struct" where
  "sched_setscheduler_nocheck victim pol prio = victim\<lparr>policy := pol, rt_priority := prio\<rparr>"

section \<open>The scan (scan_and_kill)\<close>

text \<open>The eligibility test of a tier: the score is neither below the lower nor above the upper bound.\<close>

definition adj_in_range :: "cint \<Rightarrow> cint \<Rightarrow> cshort \<Rightarrow> bool" where
  "adj_in_range min_adj max_adj score =
     (\<not> (sint score < sint min_adj \<or> sint score > sint max_adj))"

text \<open>
  The body of the \<open>for_each_process\<close> loop for one process: the process as the body leaves
  it, and \<open>Some tasksize\<close> when the body reaches \<open>pages_freed += tasksize\<close>, \<open>None\<close> when it
  leaves through a \<open>continue\<close>.
\<close>

definition scan_task :: "cint \<Rightarrow> cint \<Rightarrow> task_struct \<Rightarrow> task_struct \<times> ulong option" where
  "scan_task min_adj max_adj tsk =
     (if same_thread_group_current tsk \<or> pf_kthread tsk then (tsk, None)
      else case find_lock_task_mm tsk of
        None \<Rightarrow> (tsk, None)
      | Some victim \<Rightarrow>
          if lmk_sigkill_sent victim \<or> tif_memdie victim then (tsk, None)
          else if \<not> adj_in_range min_adj max_adj (oom_score_adj victim) then (tsk, None)
          else let tasksize = get_mm_rss victim in
            if tasksize = 0 then (tsk, None)
            else case do_send_sig_info victim of
              (ret, victim1) \<Rightarrow>
                if ret \<noteq> 0 then (victim1, None)
                else (sched_setscheduler_nocheck (victim1\<lparr>lmk_sigkill_sent := True\<rparr>)
                        SCHED_FIFO (MAX_RT_PRIO - 1),
                      Some tasksize))"

text \<open>
  The loop over the process list, with the running total. It returns the list as the scan
  leaves it; after the \<open>break\<close> the remaining processes are untouched.
\<close>

fun for_each_process ::
  "cint \<Rightarrow> cint \<Rightarrow> ulong \<Rightarrow> task_struct list \<Rightarrow> ulong \<Rightarrow> task_struct list \<times> ulong" where
  "for_each_process min_adj max_adj pages_needed [] pages_freed = ([], pages_freed)"
| "for_each_process min_adj max_adj pages_needed (tsk # rest) pages_freed =
     (case scan_task min_adj max_adj tsk of
        (tsk', None) \<Rightarrow>
          (case for_each_process min_adj max_adj pages_needed rest pages_freed of
             (rest', freed) \<Rightarrow> (tsk' # rest', freed))
      | (tsk', Some tasksize) \<Rightarrow>
          if pages_freed + tasksize \<ge> pages_needed then (tsk' # rest, pages_freed + tasksize)
          else (case for_each_process min_adj max_adj pages_needed rest (pages_freed + tasksize) of
                  (rest', freed) \<Rightarrow> (tsk' # rest', freed)))"

section \<open>The engine state\<close>

datatype devfreq_device = DEVFREQ_MSM_CPUBW

text \<open>
  The calls the engine makes to its collaborators, and each call of \<open>scan_and_kill\<close> with
  its arguments and the value it returned, are recorded in program order in \<open>trace\<close>.
\<close>

datatype event =
    CpuInputBoostKickMax cint
  | DevfreqBoostKickMax devfreq_device cint
  | ScanAndKill cint cint ulong ulong
  | PrInfo string ulong
  | QueueDelayedWork ulong
  | CancelDelayedWorkSync

record lmk_state =
  jiffies :: ulong
  tasks :: "task_struct list"
  last_reclaim_jiffies :: ulong
  simple_lmk_ready :: cint
  simple_lmk_wq :: "nat option"
  reclaim_lock :: bool
  reclaim_work_queued :: bool
  boost_drv_g :: "boost_drv option"
  trace :: "event list"

definition emit :: "event \<Rightarrow> lmk_state \<Rightarrow> lmk_state" where
  "emit e s = s\<lparr>trace := trace s @ [e]\<rparr>"

definition scan_and_kill :: "cint \<Rightarrow> cint \<Rightarrow> ulong \<Rightarrow> lmk_state \<Rightarrow> lmk_state \<times> ulong" where
  "scan_and_kill min_adj max_adj pages_needed s =
     (case for_each_process min_adj max_adj pages_needed (tasks s) 0 of
        (tasks', pages_freed) \<Rightarrow>
          (emit (ScanAndKill min_adj max_adj pages_needed pages_freed) (s\<lparr>tasks := tasks'\<rparr>),
           pages_freed))"

definition cpu_input_boost_kick_max :: "lmk_config \<Rightarrow> cint \<Rightarrow> lmk_state \<Rightarrow> lmk_state" where
  "cpu_input_boost_kick_max cfg duration_ms s =
     (let s1 = emit (CpuInputBoostKickMax duration_ms) s
      in case boost_drv_g s1 of
           None \<Rightarrow> s1
         | Some b \<Rightarrow>
             s1\<lparr>boost_drv_g :=
                  Some (do_cpu_input_boost_kick_max (msecs_to_jiffies cfg) b duration_ms (jiffies s1) [])\<rparr>)"

text \<open>
  Modelled from the spec: \<open>devfreq_boost_kick_max\<close> belongs to a driver outside the
  sources; the engine only requests the boost, which the trace records.
\<close>

definition devfreq_boost_kick_max :: "devfreq_device \<Rightarrow> cint \<Rightarrow> lmk_state \<Rightarrow> lmk_state" where
  "devfreq_boost_kick_max dev duration_ms s = emit (DevfreqBoostKickMax dev duration_ms) s"

section \<open>The reclaim pass (do_lmk_reclaim)\<close>

text \<open>The tier loop \<open>for (i = 1; i < ARRAY_SIZE(adj_prio); i++)\<close>, entered at index \<open>i\<close>.\<close>

function tier_loop :: "ulong \<Rightarrow> nat \<Rightarrow> lmk_state \<Rightarrow> ulong \<Rightarrow> lmk_state \<times> ulong" where
  "tier_loop pages_needed i s pages_freed =
     (if i < length adj_prio then
        (case scan_and_kill (scast (adj_prio ! i)) (scast (adj_prio ! (i - 1)))
                (pages_needed - pages_freed) s of
           (s1, r) \<Rightarrow>
             if pages_freed + r \<ge> pages_needed then (s1, pages_freed + r)
             else tier_loop pages_needed (Suc i) s1 (pages_freed + r))
      else (s, pages_freed))"
  by pat_completeness auto
termination
  by (relation "measure (\<lambda>(n, i, s, f). length adj_prio - i)") auto

definition do_lmk_reclaim :: "lmk_config \<Rightarrow> ulong \<Rightarrow> lmk_state \<Rightarrow> lmk_state \<times> ulong" where
  "do_lmk_reclaim cfg pages_needed s =
     (let s1 = cpu_input_boost_kick_max cfg BOOST_DURATION_MS s;
          s2 = devfreq_boost_kick_max DEVFREQ_MSM_CPUBW BOOST_DURATION_MS s1
      in case tier_loop pages_needed 1 s2 0 of
           (s3, pages_freed) \<Rightarrow>
             (s3\<lparr>last_reclaim_jiffies := jiffies s3\<rparr>, pages_freed * PAGE_SIZE cfg div SZ_1M))"

section \<open>The triggers and the activation (simple_lmk.c)\<close>

text \<open>
  Modelled from the spec: the mutex, the work queue and \<open>pr_info\<close> are kernel primitives
  outside the sources. The spec gives the lock as a single mutual-exclusion lock that the
  periodic trigger waits for ("blocks, waiting for the lock to become free") and that the
  urgent trigger "attempts to acquire non-blockingly", returning at once when it is
  unavailable; queueing the delayed work arms the next periodic tick and cancelling it
  removes a pending tick.

  A call either returns the state it leaves or sleeps on the mutex. In a single thread of
  control a held mutex is never released, so \<open>mutex_lock\<close> on a held lock is \<open>Blocks\<close>;
  \<open>mutex_trylock\<close> always returns and reports whether it took the lock.
\<close>

datatype 'a outcome = Returns 'a | Blocks

definition mutex_lock :: "lmk_state \<Rightarrow> lmk_state outcome" where
  "mutex_lock s = (if reclaim_lock s then Blocks else Returns (s\<lparr>reclaim_lock := True\<rparr>))"

definition mutex_trylock :: "lmk_state \<Rightarrow> bool \<times> lmk_state" where
  "mutex_trylock s = (if reclaim_lock s then (False, s) else (True, s\<lparr>reclaim_lock := True\<rparr>))"

definition mutex_unlock :: "lmk_state \<Rightarrow> lmk_state" where
  "mutex_unlock s = s\<lparr>reclaim_lock := False\<rparr>"

definition queue_delayed_work :: "ulong \<Rightarrow> lmk_state \<Rightarrow> lmk_state" where
  "queue_delayed_work delay s = emit (QueueDelayedWork delay) (s\<lparr>reclaim_work_queued := True\<rparr>)"

definition cancel_delayed_work_sync :: "lmk_state \<Rightarrow> lmk_state" where
  "cancel_delayed_work_sync s = emit CancelDelayedWorkSync (s\<lparr>reclaim_work_queued := False\<rparr>)"

definition pr_info :: "string \<Rightarrow> ulong \<Rightarrow> lmk_state \<Rightarrow> lmk_state" where
  "pr_info fmt mib_freed s = emit (PrInfo fmt mib_freed) s"

definition simple_lmk_reclaim_work :: "lmk_config \<Rightarrow> lmk_state \<Rightarrow> lmk_state outcome" where
  "simple_lmk_reclaim_work cfg s =
     (case mutex_lock s of
        Blocks \<Rightarrow> Blocks
      | Returns s1 \<Rightarrow>
          (case (if time_after_eq (jiffies s1) (last_reclaim_jiffies s1 + LMK_KSWAPD_TIMEOUT cfg)
                 then do_lmk_reclaim cfg (MIN_FREE_PAGES cfg) s1 else (s1, 0)) of
             (s2, mib_freed) \<Rightarrow>
               let s3 = mutex_unlock s2;
                   s4 = (if mib_freed \<noteq> 0 then pr_info ''kswapd: freed %lu MiB'' mib_freed s3 else s3)
               in Returns (queue_delayed_work (LMK_KSWAPD_TIMEOUT cfg) s4)))"

definition simple_lmk_force_reclaim :: "lmk_config \<Rightarrow> lmk_state \<Rightarrow> lmk_state outcome" where
  "simple_lmk_force_reclaim cfg s =
     (if simple_lmk_ready s = 0 then Returns s
      else case mutex_trylock s of
        (False, s1) \<Rightarrow> Returns s1
      | (True, s1) \<Rightarrow>
          (case (if time_after_eq (jiffies s1) (last_reclaim_jiffies s1 + LMK_OOM_TIMEOUT cfg)
                 then do_lmk_reclaim cfg (MIN_FREE_PAGES cfg) s1 else (s1, 0)) of
             (s2, mib_freed) \<Rightarrow>
               let s3 = mutex_unlock s2
               in Returns (if mib_freed \<noteq> 0 then pr_info ''oom: freed %lu MiB'' mib_freed s3 else s3)))"

definition simple_lmk_start_reclaim :: "lmk_config \<Rightarrow> lmk_state \<Rightarrow> lmk_state outcome" where
  "simple_lmk_start_reclaim cfg s =
     (if simple_lmk_ready s = 0 then Returns s
      else Returns (queue_delayed_work (LMK_KSWAPD_TIMEOUT cfg) s))"

definition simple_lmk_stop_reclaim :: "lmk_state \<Rightarrow> lmk_state outcome" where
  "simple_lmk_stop_reclaim s =
     (if simple_lmk_ready s = 0 then Returns s
      else Returns (cancel_delayed_work_sync s))"

text \<open>
  \<open>simple_lmk_init_set\<close>. The value written is ignored. \<open>alloc\<close> is what \<open>alloc_workqueue\<close>
  returns (\<open>None\<close> for NULL); \<open>BUG_ON\<close> stops the kernel on NULL.
\<close>

datatype fatal = BUG

definition simple_lmk_init_set :: "nat option \<Rightarrow> lmk_state \<Rightarrow> fatal + (cint \<times> lmk_state)" where
  "simple_lmk_init_set alloc s =
     (if simple_lmk_ready s \<noteq> 0 then Inr (0, s)
      else case alloc of
        None \<Rightarrow> Inl BUG
      | Some wq \<Rightarrow> Inr (0, s\<lparr>simple_lmk_wq := Some wq, simple_lmk_ready := 1\<rparr>))"

section \<open>Notions used by the theorems\<close>

text \<open>
  What a scan signalled: a process was signalled successfully by a step from \<open>t\<close> to \<open>t'\<close>
  when its count of delivered SIGKILLs grew, and then its footprint counts.
\<close>

definition signaled_rss :: "task_struct \<Rightarrow> task_struct \<Rightarrow> nat" where
  "signaled_rss t t' =
     (if sigkills_delivered t < sigkills_delivered t' then unat (get_mm_rss t) else 0)"

definition signaled_footprint :: "task_struct list \<Rightarrow> task_struct list \<Rightarrow> nat" where
  "signaled_footprint ts ts' = sum_list (map (\<lambda>(t, t'). signaled_rss t t') (zip ts ts'))"

text \<open>A sequence of scans, one after the other, each given by its three arguments.\<close>

fun run_scans :: "(cint \<times> cint \<times> ulong) list \<Rightarrow> lmk_state \<Rightarrow> lmk_state" where
  "run_scans [] s = s"
| "run_scans ((min_adj, max_adj, pages_needed) # calls) s =
     run_scans calls (fst (scan_and_kill min_adj max_adj pages_needed s))"

text \<open>The bounds of tier \<open>i\<close>, as \<open>do_lmk_reclaim\<close> passes them, and its eligibility test.\<close>

definition tier_min :: "nat \<Rightarrow> cint" where
  "tier_min i = scast (adj_prio ! i)"

definition tier_max :: "nat \<Rightarrow> cint" where
  "tier_max i = scast (adj_prio ! (i - 1))"

definition tier_accepts :: "nat \<Rightarrow> cshort \<Rightarrow> bool" where
  "tier_accepts i score = adj_in_range (tier_min i) (tier_max i) score"

text \<open>
  The scans of one pass as the spec describes them: starting at tier \<open>i\<close> with \<open>freed\<close>
  pages freed so far, the scans that return \<open>rs\<close> are made on consecutive tiers, each with
  the tier's bounds and the remaining deficit.
\<close>

fun tier_events :: "ulong \<Rightarrow> nat \<Rightarrow> ulong \<Rightarrow> ulong list \<Rightarrow> event list" where
  "tier_events pages_needed i freed [] = []"
| "tier_events pages_needed i freed (r # rs) =
     ScanAndKill (tier_min i) (tier_max i) (pages_needed - freed) r
       # tier_events pages_needed (Suc i) (freed + r) rs"

text \<open>Every scan but the last leaves the cumulative total below the target.\<close>

fun continues_below :: "ulong \<Rightarrow> ulong \<Rightarrow> ulong list \<Rightarrow> bool" where
  "continues_below pages_needed freed [] = True"
| "continues_below pages_needed freed [r] = True"
| "continues_below pages_needed freed (r # r' # rs) =
     (freed + r < pages_needed \<and> continues_below pages_needed (freed + r) (r' # rs))"

text \<open>
  At every scan the pages freed so far are below the target, the deficit passed is
  positive, and the subtraction did not wrap: deficit plus freed is the target, in \<open>nat\<close>.
\<close>

fun deficits_positive :: "ulong \<Rightarrow> ulong \<Rightarrow> ulong list \<Rightarrow> bool" where
  "deficits_positive pages_needed freed [] = True"
| "deficits_positive pages_needed freed (r # rs) =
     (freed < pages_needed \<and> 0 < pages_needed - freed \<and>
      unat (pages_needed - freed) + unat freed = unat pages_needed \<and>
      deficits_positive pages_needed (freed + r) rs)"

definition is_scan :: "event \<Rightarrow> bool" where
  "is_scan e = (case e of ScanAndKill _ _ _ _ \<Rightarrow> True | _ \<Rightarrow> False)"

text \<open>A window of half the clock's range above \<open>base\<close>, in which jiffies values are ordered.\<close>

definition in_window :: "ulong \<Rightarrow> ulong \<Rightarrow> bool" where
  "in_window base x = (uint (x - base) < 2 ^ 63)"

subsection \<open>A small system for concrete runs\<close>

definition example_cfg :: lmk_config where
  "example_cfg = \<lparr>LMK_KSWAPD_TIMEOUT = 100, LMK_OOM_TIMEOUT = 25,
     CONFIG_ANDROID_SIMPLE_LMK_MINFREE = 64, PAGE_SIZE = 4096, msecs_to_jiffies = ucast\<rparr>"

definition example_task :: "nat \<Rightarrow> cshort \<Rightarrow> ulong \<Rightarrow> task_struct" where
  "example_task p adj rss =
     \<lparr>pid = p, same_thread_group_current = False, pf_kthread = False, mm_rss = Some rss,
      lmk_sigkill_sent = False, tif_memdie = False, oom_score_adj = adj,
      sighand_present = True, sigkills_delivered = 0, policy = SCHED_NORMAL, rt_priority = 0\<rparr>"

definition example_tasks :: "task_struct list" where
  "example_tasks =
     [example_task 1 150 50,
      example_task 2 50 80,
      (example_task 3 905 30)\<lparr>sighand_present := False\<rparr>,
      (example_task 4 900 40)\<lparr>lmk_sigkill_sent := True\<rparr>,
      (example_task 5 0 0)\<lparr>pf_kthread := True, mm_rss := None\<rparr>,
      (example_task 6 0 70)\<lparr>same_thread_group_current := True\<rparr>]"

definition example_boost :: boost_drv where
  "example_boost = \<lparr>max_boost_expires = 0, max_boost_dur = 0, boost_state = 1, max_boost_queued = 0\<rparr>"

definition example_state :: lmk_state where
  "example_state =
     \<lparr>jiffies = 5000, tasks = example_tasks, last_reclaim_jiffies = 0, simple_lmk_ready = 1,
      simple_lmk_wq = Some 0, reclaim_lock = False, reclaim_work_queued = False,
      boost_drv_g = Some example_boost, trace = []\<rparr>"

text \<open>What a scan may do to one process: nothing, or signal it once and flag it.\<close>

definition scan_step :: "task_struct \<Rightarrow> task_struct \<Rightarrow> bool" where
  "scan_step t t' =
     (t' = t \<or>
      (sighand_present t \<and> \<not> lmk_sigkill_sent t \<and> \<not> tif_memdie t \<and> lmk_sigkill_sent t' \<and>
       sigkills_delivered t' = Suc (sigkills_delivered t) \<and>
       sighand_present t' = sighand_present t \<and> tif_memdie t' = tif_memdie t))"

definition example_calls :: "(cint \<times> cint \<times> ulong) list" where
  "example_calls = [(0, 906, 40), (0, 906, 1000), (100, 200, 1000)]"

definition example_idle_state :: lmk_state where
  "example_idle_state =
     example_state\<lparr>tasks := [example_task 7 500 0, (example_task 8 950 0)\<lparr>mm_rss := None\<rparr>]\<rparr>"

text \<open>The passes a trace records: every pass starts with one CPU boost request.\<close>

definition passes_started :: "event list \<Rightarrow> nat" where
  "passes_started tr =
     length (filter (\<lambda>e. case e of CpuInputBoostKickMax _ \<Rightarrow> True | _ \<Rightarrow> False) tr)"

text \<open>
  The calls that reach the engine from outside, one at a time: a write to the \<open>minfree\<close>
  parameter (with what \<open>alloc_workqueue\<close> would return), the three exported functions,
  the workqueue running the queued periodic work, and the clock advancing.
\<close>

datatype api_call =
    WriteMinfree "nat option"
  | ForceReclaim
  | StartReclaim
  | StopReclaim
  | RunReclaimWork
  | Tick ulong

definition returned :: "'a outcome \<Rightarrow> 'a option" where
  "returned r = (case r of Returns s \<Rightarrow> Some s | Blocks \<Rightarrow> None)"

fun api_step :: "lmk_config \<Rightarrow> api_call \<Rightarrow> lmk_state \<Rightarrow> lmk_state option" where
  "api_step cfg (WriteMinfree alloc) s =
     (case simple_lmk_init_set alloc s of Inl _ \<Rightarrow> None | Inr (ret, s') \<Rightarrow> Some s')"
| "api_step cfg ForceReclaim s = returned (simple_lmk_force_reclaim cfg s)"
| "api_step cfg StartReclaim s = returned (simple_lmk_start_reclaim cfg s)"
| "api_step cfg StopReclaim s = returned (simple_lmk_stop_reclaim s)"
| "api_step cfg RunReclaimWork s =
     (if reclaim_work_queued s
      then returned (simple_lmk_reclaim_work cfg (s\<lparr>reclaim_work_queued := False\<rparr>))
      else None)"
| "api_step cfg (Tick n) s = Some (s\<lparr>jiffies := jiffies s + n\<rparr>)"

fun run_api :: "lmk_config \<Rightarrow> api_call list \<Rightarrow> lmk_state \<Rightarrow> lmk_state option" where
  "run_api cfg [] s = Some s"
| "run_api cfg (c # cs) s = (case api_step cfg c s of None \<Rightarrow> None | Some s' \<Rightarrow> run_api cfg cs s')"

definition example_after_reclaim :: lmk_state where
  "example_after_reclaim =
     (case simple_lmk_force_reclaim example_cfg example_state of
        Returns s \<Rightarrow> s | Blocks \<Rightarrow> example_state)"

definition example_uninit_state :: lmk_state where
  "example_uninit_state = example_state\<lparr>simple_lmk_ready := 0, simple_lmk_wq := None\<rparr>"

text \<open>What a pass leaves alone.\<close>

definition same_engine :: "lmk_state \<Rightarrow> lmk_state \<Rightarrow> bool" where
  "same_engine s s' =
     (jiffies s' = jiffies s \<and> simple_lmk_ready s' = simple_lmk_ready s \<and>
      simple_lmk_wq s' = simple_lmk_wq s \<and> reclaim_lock s' = reclaim_lock s \<and>
      reclaim_work_queued s' = reclaim_work_queued s)"

definition example_api_run :: "api_call list" where
  "example_api_run =
     [ForceReclaim, StartReclaim, StopReclaim, WriteMinfree (Some 7), WriteMinfree (Some 8),
      StartReclaim, Tick 100, RunReclaimWork, ForceReclaim, StopReclaim, WriteMinfree None]"

section \<open>Interleaved execution of the two triggers\<close>

text \<open>
  Several threads run the two triggers at the same time. A thread is at one of the points
  of \<open>simple_lmk_reclaim_work\<close> (the periodic trigger) or \<open>simple_lmk_force_reclaim\<close> (the
  urgent trigger) between which other threads may run: before taking the lock, holding it
  before the interval test, inside \<open>do_lmk_reclaim\<close>, before \<open>mutex_unlock\<close> (with the
  value of \<open>mib_freed\<close>), and after it. The effects of a pass on the engine state take
  place when the thread leaves \<open>do_lmk_reclaim\<close>.
\<close>

datatype trigger = Periodic | Urgent

datatype pc =
    Idle
  | AtLock trigger
  | Holding trigger
  | Reclaiming trigger
  | Unlocking trigger ulong
  | Finishing trigger ulong

record system =
  engine :: lmk_state
  threads :: "pc list"

text \<open>
  An interleaving is a list of scheduling events: a thread enters a trigger, a thread
  takes its next step, or the clock advances by one jiffy.
\<close>

datatype sched = Invoke nat trigger | Step nat | ClockTick

definition timeout_of :: "lmk_config \<Rightarrow> trigger \<Rightarrow> ulong" where
  "timeout_of cfg k = (case k of Periodic \<Rightarrow> LMK_KSWAPD_TIMEOUT cfg | Urgent \<Rightarrow> LMK_OOM_TIMEOUT cfg)"

text \<open>
  Entering a trigger. The urgent trigger tests the readiness flag first. The periodic
  trigger is the work item started by the work queue, which clears its pending mark.
\<close>

fun invoke :: "trigger \<Rightarrow> lmk_state \<Rightarrow> pc \<times> lmk_state" where
  "invoke Urgent s = (if simple_lmk_ready s = 0 then (Idle, s) else (AtLock Urgent, s))"
| "invoke Periodic s = (AtLock Periodic, s\<lparr>reclaim_work_queued := False\<rparr>)"

text \<open>
  One step of a thread. A thread in \<open>mutex_lock\<close> on a held lock does not move;
  \<open>mutex_trylock\<close> on a held lock makes the urgent trigger return.
\<close>

fun thread_step :: "lmk_config \<Rightarrow> pc \<Rightarrow> lmk_state \<Rightarrow> pc \<times> lmk_state" where
  "thread_step cfg Idle s = (Idle, s)"
| "thread_step cfg (AtLock Periodic) s =
     (case mutex_lock s of Blocks \<Rightarrow> (AtLock Periodic, s) | Returns s1 \<Rightarrow> (Holding Periodic, s1))"
| "thread_step cfg (AtLock Urgent) s =
     (case mutex_trylock s of (False, s1) \<Rightarrow> (Idle, s1) | (True, s1) \<Rightarrow> (Holding Urgent, s1))"
| "thread_step cfg (Holding k) s =
     (if time_after_eq (jiffies s) (last_reclaim_jiffies s + timeout_of cfg k)
      then (Reclaiming k, s) else (Unlocking k 0, s))"
| "thread_step cfg (Reclaiming k) s =
     (case do_lmk_reclaim cfg (MIN_FREE_PAGES cfg) s of
        (s2, mib_freed) \<Rightarrow> (Unlocking k mib_freed, s2))"
| "thread_step cfg (Unlocking k mib_freed) s = (Finishing k mib_freed, mutex_unlock s)"
| "thread_step cfg (Finishing Periodic mib_freed) s =
     (let s4 = (if mib_freed \<noteq> 0 then pr_info ''kswapd: freed %lu MiB'' mib_freed s else s)
      in (Idle, queue_delayed_work (LMK_KSWAPD_TIMEOUT cfg) s4))"
| "thread_step cfg (Finishing Urgent mib_freed) s =
     (Idle, if mib_freed \<noteq> 0 then pr_info ''oom: freed %lu MiB'' mib_freed s else s)"

definition sched_step :: "lmk_config \<Rightarrow> sched \<Rightarrow> system \<Rightarrow> system" where
  "sched_step cfg ev c =
     (case ev of
        Invoke t k \<Rightarrow>
          if t < length (threads c) \<and> threads c ! t = Idle
          then (case invoke k (engine c) of
                  (p, s) \<Rightarrow> c\<lparr>engine := s, threads := (threads c)[t := p]\<rparr>)
          else c
      | Step t \<Rightarrow>
          if t < length (threads c)
          then (case thread_step cfg (threads c ! t) (engine c) of
                  (p, s) \<Rightarrow> c\<lparr>engine := s, threads := (threads c)[t := p]\<rparr>)
          else c
      | ClockTick \<Rightarrow> c\<lparr>engine := (engine c)\<lparr>jiffies := jiffies (engine c) + 1\<rparr>\<rparr>)"

fun run_sched :: "lmk_config \<Rightarrow> sched list \<Rightarrow> system \<Rightarrow> system" where
  "run_sched cfg [] c = c"
| "run_sched cfg (ev # evs) c = run_sched cfg evs (sched_step cfg ev c)"

text \<open>A thread is inside a pass, and a thread holds the lock.\<close>

definition in_pass :: "pc \<Rightarrow> bool" where
  "in_pass p = (case p of Reclaiming _ \<Rightarrow> True | _ \<Rightarrow> False)"

definition holds_lock :: "pc \<Rightarrow> bool" where
  "holds_lock p = (case p of Holding _ \<Rightarrow> True | Reclaiming _ \<Rightarrow> True | Unlocking _ _ \<Rightarrow> True | _ \<Rightarrow> False)"

text \<open>The start: no thread is in a trigger and the lock is free.\<close>

definition quiescent :: "system \<Rightarrow> bool" where
  "quiescent c = (\<not> reclaim_lock (engine c) \<and> filter (\<lambda>p. p \<noteq> Idle) (threads c) = [])"

definition lock_inv :: "system \<Rightarrow> bool" where
  "lock_inv c =
     (length (filter holds_lock (threads c)) = (if reclaim_lock (engine c) then 1 else 0))"

definition example_system :: system where
  "example_system = \<lparr>engine = example_state, threads = [Idle, Idle, Idle]\<rparr>"

definition example_schedule :: "sched list" where
  "example_schedule =
     [Invoke 0 Periodic, Invoke 1 Urgent, Step 0, Invoke 2 Periodic, Step 1, Step 2, Step 0,
      Invoke 1 Urgent, ClockTick, Step 1, Step 2, Step 0, Step 2, Step 0, Step 2, Step 0, Step 2]"

section \<open>Concurrent max-boost requests\<close>

text \<open>
  Several CPUs run \<open>__cpu_input_boost_kick_max\<close> on the same driver at the same time. A
  request is at one of the points of the function between which the others may run:
  before the reads of the stored expiry and of the clock (\<open>KickRead\<close>), before the
  \<open>atomic64_cmpxchg\<close> with the two values it has computed (\<open>KickExchange\<close>), after a
  successful exchange, before the duration is published and the work queued
  (\<open>KickCommit\<close>), and returned (\<open>KickDone\<close>).
\<close>

datatype kick_pc = KickRead | KickExchange | KickCommit | KickDone

record kicker =
  kpc :: kick_pc
  duration_ms :: cint
  curr_expires :: ulong
  new_expires :: ulong

record boost_system =
  drv :: boost_drv
  clock :: ulong
  kickers :: "kicker list"

text \<open>
  One step of a request: the body of the \<open>do ... while\<close> loop up to the test, the exchange
  with the loop condition, and the two statements after the loop.
\<close>

definition kicker_step :: "(cint \<Rightarrow> ulong) \<Rightarrow> ulong \<Rightarrow> kicker \<Rightarrow> boost_drv \<Rightarrow> kicker \<times> boost_drv" where
  "kicker_step m2j jiffies_now k b =
     (case kpc k of
        KickRead \<Rightarrow>
          (let curr = max_boost_expires b;
               new = jiffies_now + m2j (duration_ms k);
               k1 = k\<lparr>curr_expires := curr, new_expires := new\<rparr>
           in if time_after curr new then (k1\<lparr>kpc := KickDone\<rparr>, b)
              else (k1\<lparr>kpc := KickExchange\<rparr>, b))
      | KickExchange \<Rightarrow>
          (case atomic64_cmpxchg (max_boost_expires b) (curr_expires k) (new_expires k) of
             (stored, old) \<Rightarrow>
               (k\<lparr>kpc := (if old \<noteq> curr_expires k then KickRead else KickCommit)\<rparr>,
                b\<lparr>max_boost_expires := stored\<rparr>))
      | KickCommit \<Rightarrow> (k\<lparr>kpc := KickDone\<rparr>, kick_max_commit b (duration_ms k))
      | KickDone \<Rightarrow> (k, b))"

text \<open>
  An interleaving is a list of events: a request takes its next step, a CPU outside the
  system stores a value to the expiry, or the clock is set.
\<close>

datatype boost_event = KickStep nat | OtherStore ulong | ClockSet ulong

definition boost_step :: "(cint \<Rightarrow> ulong) \<Rightarrow> boost_event \<Rightarrow> boost_system \<Rightarrow> boost_system" where
  "boost_step m2j ev sys =
     (case ev of
        KickStep t \<Rightarrow>
          if t < length (kickers sys)
          then (case kicker_step m2j (clock sys) (kickers sys ! t) (drv sys) of
                  (k, b) \<Rightarrow> sys\<lparr>drv := b, kickers := (kickers sys)[t := k]\<rparr>)
          else sys
      | OtherStore v \<Rightarrow> sys\<lparr>drv := (drv sys)\<lparr>max_boost_expires := v\<rparr>\<rparr>
      | ClockSet j \<Rightarrow> sys\<lparr>clock := j\<rparr>)"

fun run_boost :: "(cint \<Rightarrow> ulong) \<Rightarrow> boost_event list \<Rightarrow> boost_system \<Rightarrow> boost_system" where
  "run_boost m2j [] sys = sys"
| "run_boost m2j (ev # evs) sys = run_boost m2j evs (boost_step m2j ev sys)"

definition new_kicker :: "cint \<Rightarrow> kicker" where
  "new_kicker d = \<lparr>kpc = KickRead, duration_ms = d, curr_expires = 0, new_expires = 0\<rparr>"

text \<open>All requests are about to start, all requests have returned, and an event is a step of a request.\<close>

definition all_fresh :: "boost_system \<Rightarrow> bool" where
  "all_fresh sys = (filter (\<lambda>k. kpc k \<noteq> KickRead) (kickers sys) = [])"

definition all_done :: "boost_system \<Rightarrow> bool" where
  "all_done sys = (filter (\<lambda>k. kpc k \<noteq> KickDone) (kickers sys) = [])"

definition is_kick :: "boost_event \<Rightarrow> bool" where
  "is_kick ev = (case ev of KickStep _ \<Rightarrow> True | _ \<Rightarrow> False)"

text \<open>A request that is about to exchange has found no later expiry stored.\<close>

definition kick_local :: "kicker \<Rightarrow> bool" where
  "kick_local k = (kpc k \<noteq> KickExchange \<or> \<not> time_after (curr_expires k) (new_expires k))"

text \<open>
  What holds while requests with the durations \<open>ds\<close> run against a driver whose expiry was
  \<open>s0\<close>, at the clock value \<open>j\<close>, with all expiries in the window above \<open>base\<close>.
\<close>

definition coalesce_inv ::
  "(cint \<Rightarrow> ulong) \<Rightarrow> ulong \<Rightarrow> ulong \<Rightarrow> ulong \<Rightarrow> cint list \<Rightarrow> boost_system \<Rightarrow> bool" where
  "coalesce_inv m2j base s0 j ds sys =
     (clock sys = j \<and> map duration_ms (kickers sys) = ds \<and>
      uint (s0 - base) \<le> uint (max_boost_expires (drv sys) - base) \<and>
      (max_boost_expires (drv sys) = s0 \<or> max_boost_expires (drv sys) \<in> (\<lambda>d. j + m2j d) ` set ds) \<and>
      (\<forall>k \<in> set (kickers sys).
         (kpc k = KickExchange \<longrightarrow>
            new_expires k = j + m2j (duration_ms k) \<and>
            \<not> time_after (curr_expires k) (new_expires k)) \<and>
         (kpc k = KickCommit \<or> kpc k = KickDone \<longrightarrow>
            uint (j + m2j (duration_ms k) - base) \<le> uint (max_boost_expires (drv sys) - base))))"

definition example_boost_system :: boost_system where
  "example_boost_system =
     \<lparr>drv = example_boost\<lparr>max_boost_expires := 1000\<rparr>, clock = 5000,
      kickers = [new_kicker 250, new_kicker 600]\<rparr>"

definition example_race_late_first :: "boost_event list" where
  "example_race_late_first =
     [KickStep 0, KickStep 1, KickStep 1, KickStep 0, KickStep 0, KickStep 1]"

definition example_race_early_first :: "boost_event list" where
  "example_race_early_first =
     [KickStep 0, KickStep 1, KickStep 0, KickStep 1, KickStep 1, KickStep 1, KickStep 0, KickStep 1]"

section \<open>Properties of the scan\<close>

lemmas ex_defs = example_state_def example_tasks_def example_task_def example_boost_def example_cfg_def
lemmas scan_defs = scan_and_kill_def scan_task_def find_lock_task_mm_def do_send_sig_info_def get_mm_rss_def
       sched_setscheduler_nocheck_def adj_in_range_def emit_def MAX_RT_PRIO_def

lemma scan_task_None: "scan_task min_adj max_adj t = (t', None) \<Longrightarrow> t' = t"
  by (auto simp: scan_task_def find_lock_task_mm_def do_send_sig_info_def Let_def
       split: if_splits option.splits prod.splits)

lemma scan_task_Some:
  "scan_task min_adj max_adj t = (t', Some n) \<Longrightarrow>
     t' = t\<lparr>sigkills_delivered := Suc (sigkills_delivered t), lmk_sigkill_sent := True,
            policy := SCHED_FIFO, rt_priority := MAX_RT_PRIO - 1\<rparr> \<and>
     mm_rss t = Some n \<and> n \<noteq> 0 \<and> sighand_present t \<and> \<not> lmk_sigkill_sent t \<and> \<not> tif_memdie t \<and>
     \<not> same_thread_group_current t \<and> \<not> pf_kthread t \<and>
     adj_in_range min_adj max_adj (oom_score_adj t)"
  by (auto simp: scan_task_def find_lock_task_mm_def do_send_sig_info_def Let_def get_mm_rss_def
       sched_setscheduler_nocheck_def
       split: if_splits option.splits prod.splits)

lemma unat_plus_le: "unat (a + b :: 'a::len word) \<le> unat a + unat b"
  using of_nat_le_iff uint_add_le by fastforce

lemma for_each_process_length:
  "for_each_process min_adj max_adj needed ts freed = (ts', r) \<Longrightarrow> length ts' = length ts"
  by (induction ts arbitrary: freed ts' r)
     (auto split: prod.splits option.splits if_splits)

lemma signaled_footprint_same: "signaled_footprint ts ts = 0"
  by (induction ts) (auto simp: signaled_footprint_def signaled_rss_def)

lemma signaled_footprint_Cons:
  "signaled_footprint (t # ts) (t' # ts') = signaled_rss t t' + signaled_footprint ts ts'"
  by (simp add: signaled_footprint_def)

lemma for_each_process_bound:
  "for_each_process min_adj max_adj needed ts freed = (ts', r) \<Longrightarrow>
     unat r \<le> unat freed + signaled_footprint ts ts'"
proof (induction ts arbitrary: freed ts' r)
  case Nil
  then show ?case by simp
next
  case (Cons t ts)
  obtain t1 res where st: "scan_task min_adj max_adj t = (t1, res)"
    by (cases "scan_task min_adj max_adj t")
  show ?case
  proof (cases res)
    case None
    with st have t1: "t1 = t" by (simp add: scan_task_None)
    from Cons.prems st None obtain rest' where
      r: "for_each_process min_adj max_adj needed ts freed = (rest', r)" and ts': "ts' = t # rest'"
      by (auto simp: t1 split: prod.splits)
    from Cons.IH[OF r] show ?thesis
      by (simp add: ts' signaled_footprint_Cons signaled_rss_def)
  next
    case (Some n)
    note k = scan_task_Some[OF st[unfolded Some]]
    have rss: "signaled_rss t t1 = unat n"
      using k by (simp add: signaled_rss_def get_mm_rss_def)
    show ?thesis
    proof (cases "freed + n \<ge> needed")
      case True
      with Cons.prems st Some have "ts' = t1 # ts" "r = freed + n" by auto
      then show ?thesis using rss unat_plus_le[of freed n]
        by (simp add: signaled_footprint_Cons signaled_footprint_same)
    next
      case False
      with Cons.prems st Some obtain rest' where
        r: "for_each_process min_adj max_adj needed ts (freed + n) = (rest', r)" and ts': "ts' = t1 # rest'"
        by (auto split: prod.splits)
      from Cons.IH[OF r] show ?thesis using rss unat_plus_le[of freed n]
        by (simp add: ts' signaled_footprint_Cons)
    qed
  qed
qed

lemma scan_task_step: "scan_task min_adj max_adj t = (t', res) \<Longrightarrow> scan_step t t'"
  by (cases res) (auto simp: scan_step_def dest: scan_task_None scan_task_Some)

lemma scan_step_refl: "list_all2 scan_step ts ts"
  by (simp add: list_all2_refl scan_step_def)

lemma for_each_process_step:
  "for_each_process min_adj max_adj needed ts freed = (ts', r) \<Longrightarrow> list_all2 scan_step ts ts'"
proof (induction ts arbitrary: freed ts' r)
  case Nil
  then show ?case by simp
next
  case (Cons t ts)
  obtain t1 res where st: "scan_task min_adj max_adj t = (t1, res)"
    by (cases "scan_task min_adj max_adj t")
  have h: "scan_step t t1" using st by (rule scan_task_step)
  from Cons.prems st show ?case
    by (auto split: option.splits prod.splits if_splits simp: h scan_step_refl dest: Cons.IH)
qed

lemma scan_step_trans: "scan_step a b \<Longrightarrow> scan_step b c \<Longrightarrow> scan_step a c"
  by (auto simp: scan_step_def)

lemma scan_and_kill_step: "list_all2 scan_step (tasks s) (tasks (fst (scan_and_kill min_adj max_adj needed s)))"
  by (auto simp: scan_and_kill_def emit_def split: prod.splits dest: for_each_process_step)

lemma run_scans_step: "list_all2 scan_step (tasks s) (tasks (run_scans calls s))"
proof (induction calls arbitrary: s)
  case Nil
  show ?case by (simp add: scan_step_refl)
next
  case (Cons c calls)
  obtain a b n where c: "c = (a, b, n)" by (cases c)
  have 1: "list_all2 scan_step (tasks s) (tasks (fst (scan_and_kill a b n s)))"
    by (rule scan_and_kill_step)
  have 2: "list_all2 scan_step (tasks (fst (scan_and_kill a b n s))) (tasks (run_scans (c # calls) s))"
    unfolding c using Cons.IH by simp
  show ?case
    by (rule list_all2_trans[OF _ 1 2]) (rule scan_step_trans)
qed

text \<open>
  Claim C4. For every call of \<open>scan_and_kill\<close> over any process list, the total it returns
  never exceeds the sum of the resident footprints of the processes the call signalled
  successfully, and a process whose signal cannot be delivered is left as it was and adds
  nothing to that sum.
\<close>

theorem scan_and_kill_freed_bounded:
  assumes "scan_and_kill min_adj max_adj pages_needed s = (s', freed)"
  shows "unat freed \<le> signaled_footprint (tasks s) (tasks s') \<and>
         length (tasks s') = length (tasks s) \<and>
         (\<forall>i < length (tasks s). \<not> sighand_present (tasks s ! i) \<longrightarrow>
            tasks s' ! i = tasks s ! i \<and> signaled_rss (tasks s ! i) (tasks s' ! i) = 0)"
proof -
  obtain ts' where f: "for_each_process min_adj max_adj pages_needed (tasks s) 0 = (ts', freed)"
    and ts': "tasks s' = ts'"
    using assms by (auto simp: scan_and_kill_def emit_def split: prod.splits)
  have 1: "unat freed \<le> signaled_footprint (tasks s) (tasks s')"
    using for_each_process_bound[OF f] by (simp add: ts')
  have 2: "list_all2 scan_step (tasks s) (tasks s')"
    using for_each_process_step[OF f] by (simp add: ts')
  have 3: "length (tasks s') = length (tasks s)"
    using 2 by (simp add: list_all2_lengthD)
  have 4: "tasks s' ! i = tasks s ! i \<and> signaled_rss (tasks s ! i) (tasks s' ! i) = 0"
    if "i < length (tasks s)" "\<not> sighand_present (tasks s ! i)" for i
  proof -
    have "scan_step (tasks s ! i) (tasks s' ! i)" using 2 that(1) by (rule list_all2_nthD)
    with that(2) show ?thesis by (auto simp: scan_step_def signaled_rss_def)
  qed
  from 1 3 4 show ?thesis by blast
qed

theorem scan_and_kill_freed_bounded_witness:
  "unat (snd (scan_and_kill 0 906 1000 example_state))
     \<le> signaled_footprint (tasks example_state) (tasks (fst (scan_and_kill 0 906 1000 example_state)))
   \<and> snd (scan_and_kill 0 906 1000 example_state) = 130
   \<and> \<not> sighand_present (tasks example_state ! 2)
   \<and> tasks (fst (scan_and_kill 0 906 1000 example_state)) ! 2 = tasks example_state ! 2"
  using scan_and_kill_freed_bounded[of 0 906 1000 example_state
          "fst (scan_and_kill 0 906 1000 example_state)" "snd (scan_and_kill 0 906 1000 example_state)"]
  by (simp add: ex_defs scan_defs)

text \<open>
  Claim C6. Over any sequence of scans, a process whose \<open>lmk_sigkill_sent\<close> flag is set or
  that is marked \<open>TIF_MEMDIE\<close> is never signalled (it is left exactly as it was); every
  process that a scan signalled carries the flag afterwards; and so no process is
  signalled more than once, however many scans observe it.
\<close>

theorem flagged_never_signaled_again:
  "length (tasks (run_scans calls s)) = length (tasks s) \<and>
   (\<forall>i < length (tasks s).
      ((lmk_sigkill_sent (tasks s ! i) \<or> tif_memdie (tasks s ! i)) \<longrightarrow>
          tasks (run_scans calls s) ! i = tasks s ! i) \<and>
      (sigkills_delivered (tasks (run_scans calls s) ! i) \<noteq> sigkills_delivered (tasks s ! i) \<longrightarrow>
          lmk_sigkill_sent (tasks (run_scans calls s) ! i)) \<and>
      sigkills_delivered (tasks (run_scans calls s) ! i) \<le> Suc (sigkills_delivered (tasks s ! i)))"
proof -
  have 2: "list_all2 scan_step (tasks s) (tasks (run_scans calls s))" by (rule run_scans_step)
  have 3: "length (tasks (run_scans calls s)) = length (tasks s)"
    using 2 by (simp add: list_all2_lengthD)
  have 4: "((lmk_sigkill_sent (tasks s ! i) \<or> tif_memdie (tasks s ! i)) \<longrightarrow>
          tasks (run_scans calls s) ! i = tasks s ! i) \<and>
      (sigkills_delivered (tasks (run_scans calls s) ! i) \<noteq> sigkills_delivered (tasks s ! i) \<longrightarrow>
          lmk_sigkill_sent (tasks (run_scans calls s) ! i)) \<and>
      sigkills_delivered (tasks (run_scans calls s) ! i) \<le> Suc (sigkills_delivered (tasks s ! i))"
    if "i < length (tasks s)" for i
  proof -
    have "scan_step (tasks s ! i) (tasks (run_scans calls s) ! i)"
      using 2 that by (rule list_all2_nthD)
    then show ?thesis unfolding scan_step_def by auto
  qed
  from 3 4 show ?thesis by blast
qed

theorem flagged_never_signaled_again_witness:
  "lmk_sigkill_sent (tasks example_state ! 3) \<and>
   tasks (run_scans example_calls example_state) ! 3 = tasks example_state ! 3 \<and>
   sigkills_delivered (tasks example_state ! 0) = 0 \<and>
   sigkills_delivered (tasks (run_scans example_calls example_state) ! 0) = 1 \<and>
   lmk_sigkill_sent (tasks (run_scans example_calls example_state) ! 0)"
  using flagged_never_signaled_again[of example_calls example_state]
  by (simp add: ex_defs scan_defs example_calls_def)

section \<open>Properties of the reclaim pass\<close>

declare tier_loop.simps [simp del]

lemma scan_and_kill_trace:
  "scan_and_kill min_adj max_adj needed s = (s', r) \<Longrightarrow>
     trace s' = trace s @ [ScanAndKill min_adj max_adj needed r]"
  by (auto simp: scan_and_kill_def emit_def split: prod.splits)

lemma deficit_no_wrap:
  fixes freed needed :: ulong
  assumes "freed < needed"
  shows "0 < needed - freed \<and> unat (needed - freed) + unat freed = unat needed"
proof -
  have le: "freed \<le> needed" using assms by simp
  have "unat (needed - freed) = unat needed - unat freed" using le by (rule unat_sub)
  moreover have "unat freed < unat needed" using assms by (simp add: word_less_nat_alt)
  ultimately have "unat (needed - freed) + unat freed = unat needed" "0 < unat (needed - freed)"
    by simp_all
  then show ?thesis by (simp add: word_greater_zero_iff unat_gt_0)
qed

lemma continues_below_Cons:
  "\<not> needed \<le> freed + r \<Longrightarrow> continues_below needed (freed + r) rs \<Longrightarrow>
     continues_below needed freed (r # rs)"
  by (cases rs) (simp_all add: not_le)

lemma tier_loop_trace:
  "tier_loop needed i s freed = (s', f') \<Longrightarrow>
     \<exists>rs. trace s' = trace s @ tier_events needed i freed rs \<and>
          f' = freed + sum_list rs \<and>
          continues_below needed freed rs \<and>
          (i < length adj_prio \<longrightarrow> rs \<noteq> [] \<and> i + length rs \<le> length adj_prio \<and>
             (i + length rs = length adj_prio \<or> needed \<le> f')) \<and>
          (freed < needed \<longrightarrow> deficits_positive needed freed rs)"
proof (induction needed i s freed arbitrary: s' f' rule: tier_loop.induct)
  case (1 needed i s freed)
  show ?case
  proof (cases "i < length adj_prio")
    case False
    with "1.prems" have "s' = s" "f' = freed" by (simp_all add: tier_loop.simps)
    then show ?thesis using False by (intro exI[of _ "[]"]) simp
  next
    case True
    obtain s1 r where sk: "scan_and_kill (scast (adj_prio ! i)) (scast (adj_prio ! (i - 1)))
                (needed - freed) s = (s1, r)"
      by (cases "scan_and_kill (scast (adj_prio ! i)) (scast (adj_prio ! (i - 1))) (needed - freed) s")
    have tr: "trace s1 = trace s @ [ScanAndKill (tier_min i) (tier_max i) (needed - freed) r]"
      using scan_and_kill_trace[OF sk] by (simp add: tier_min_def tier_max_def)
    show ?thesis
    proof (cases "needed \<le> freed + r")
      case met: True
      with "1.prems" True sk have "s' = s1" "f' = freed + r" by (simp_all add: tier_loop.simps)
      then show ?thesis using True tr met deficit_no_wrap[of freed needed]
        by (intro exI[of _ "[r]"]) (simp add: Suc_le_eq)
    next
      case False
      with "1.prems" True sk have rec: "tier_loop needed (Suc i) s1 (freed + r) = (s', f')"
        by (simp add: tier_loop.simps)
      have below: "freed + r < needed" using False by simp
      from "1.IH"[OF True sk[symmetric] False rec] obtain rs where
        rs: "trace s' = trace s1 @ tier_events needed (Suc i) (freed + r) rs"
            "f' = freed + r + sum_list rs"
            "continues_below needed (freed + r) rs"
            "Suc i < length adj_prio \<longrightarrow> rs \<noteq> [] \<and> Suc i + length rs \<le> length adj_prio \<and>
               (Suc i + length rs = length adj_prio \<or> needed \<le> f')"
            "deficits_positive needed (freed + r) rs"
        using below by blast
      have emp: "rs = []" if "\<not> Suc i < length adj_prio"
      proof -
        from that rec have "s' = s1" by (simp add: tier_loop.simps)
        with rs(1) show ?thesis by (cases rs) simp_all
      qed
      have len: "i + length (r # rs) \<le> length adj_prio \<and>
                 (i + length (r # rs) = length adj_prio \<or> needed \<le> f')"
      proof (cases "Suc i < length adj_prio")
        case True
        with rs(4) show ?thesis by simp
      next
        case F: False
        with emp have "rs = []" by simp
        with F True show ?thesis by simp
      qed
      show ?thesis
        using rs(1,2,3,5) tr len continues_below_Cons[OF False rs(3)] deficit_no_wrap[of freed needed]
        by (intro exI[of _ "r # rs"]) (simp add: add.assoc)
    qed
  qed
qed


lemma boost_kicks_trace:
  "trace (devfreq_boost_kick_max dev d2 (cpu_input_boost_kick_max cfg d1 s)) =
     trace s @ [CpuInputBoostKickMax d1, DevfreqBoostKickMax dev d2]"
  by (simp add: devfreq_boost_kick_max_def cpu_input_boost_kick_max_def emit_def Let_def
        split: option.splits)

lemma boost_kicks_tasks:
  "tasks (devfreq_boost_kick_max dev d2 (cpu_input_boost_kick_max cfg d1 s)) = tasks s"
  by (simp add: devfreq_boost_kick_max_def cpu_input_boost_kick_max_def emit_def Let_def
        split: option.splits)

lemma do_lmk_reclaim_unfold:
  "do_lmk_reclaim cfg needed s =
     (case tier_loop needed 1
             (devfreq_boost_kick_max DEVFREQ_MSM_CPUBW BOOST_DURATION_MS
                (cpu_input_boost_kick_max cfg BOOST_DURATION_MS s)) 0 of
        (s3, pages_freed) \<Rightarrow>
          (s3\<lparr>last_reclaim_jiffies := jiffies s3\<rparr>, pages_freed * PAGE_SIZE cfg div SZ_1M))"
  by (simp add: do_lmk_reclaim_def Let_def)

lemma do_lmk_reclaim_scans:
  "\<exists>rs. trace (fst (do_lmk_reclaim cfg pages_needed s)) =
          trace s @ [CpuInputBoostKickMax 250, DevfreqBoostKickMax DEVFREQ_MSM_CPUBW 250]
            @ tier_events pages_needed 1 0 rs \<and>
        1 \<le> length rs \<and> length rs \<le> 10 \<and>
        continues_below pages_needed 0 rs \<and>
        (length rs = 10 \<or> pages_needed \<le> sum_list rs) \<and>
        (0 < pages_needed \<longrightarrow> deficits_positive pages_needed 0 rs) \<and>
        snd (do_lmk_reclaim cfg pages_needed s) = sum_list rs * PAGE_SIZE cfg div SZ_1M"
proof -
  let ?s2 = "devfreq_boost_kick_max DEVFREQ_MSM_CPUBW BOOST_DURATION_MS
                (cpu_input_boost_kick_max cfg BOOST_DURATION_MS s)"
  obtain s3 f where tl: "tier_loop pages_needed 1 ?s2 0 = (s3, f)"
    by (cases "tier_loop pages_needed 1 ?s2 0")
  have len: "length adj_prio = 11" by (simp add: adj_prio_def)
  from tier_loop_trace[OF tl] obtain rs where
    rs: "trace s3 = trace ?s2 @ tier_events pages_needed 1 0 rs"
        "f = sum_list rs" "continues_below pages_needed 0 rs"
        "rs \<noteq> []" "1 + length rs \<le> 11" "1 + length rs = 11 \<or> pages_needed \<le> f"
        "0 < pages_needed \<longrightarrow> deficits_positive pages_needed 0 rs"
    by (auto simp: len)
  have d: "do_lmk_reclaim cfg pages_needed s =
             (s3\<lparr>last_reclaim_jiffies := jiffies s3\<rparr>, f * PAGE_SIZE cfg div SZ_1M)"
    unfolding do_lmk_reclaim_unfold tl by simp
  have t2: "trace ?s2 = trace s @ [CpuInputBoostKickMax 250, DevfreqBoostKickMax DEVFREQ_MSM_CPUBW 250]"
    by (simp add: boost_kicks_trace BOOST_DURATION_MS_def)
  have "1 \<le> length rs" using rs(4) by (cases rs) simp_all
  then show ?thesis
    using rs(2-) by (intro exI[of _ rs]) (simp add: d rs(1) t2)
qed

text \<open>
  Claim C2. \<open>do_lmk_reclaim\<close> scans the tiers in the order of the boundary table from
  index 1 upward: its scans are those of \<open>tier_events\<close> from tier 1 with nothing freed,
  that is, the k-th scan has the bounds (adj_prio[k], adj_prio[k-1]) and is passed
  \<open>pages_needed\<close> minus the sum of what the earlier scans returned. At least one and at most
  ten scans are made; every scan but the last leaves the total below \<open>pages_needed\<close>; and
  after the last either all ten tiers were scanned or the total has reached \<open>pages_needed\<close>.
  The total is compared with \<open>pages_needed\<close> after each scan, so the first tier is always
  scanned.
\<close>

theorem do_lmk_reclaim_tier_order:
  "\<exists>rs. trace (fst (do_lmk_reclaim cfg pages_needed s)) =
          trace s @ [CpuInputBoostKickMax 250, DevfreqBoostKickMax DEVFREQ_MSM_CPUBW 250]
            @ tier_events pages_needed 1 0 rs \<and>
        1 \<le> length rs \<and> length rs \<le> 10 \<and>
        continues_below pages_needed 0 rs \<and>
        (length rs = 10 \<or> pages_needed \<le> sum_list rs) \<and>
        snd (do_lmk_reclaim cfg pages_needed s) = sum_list rs * PAGE_SIZE cfg div SZ_1M"
  using do_lmk_reclaim_scans[of cfg pages_needed s] by blast

lemmas pass_defs = do_lmk_reclaim_def cpu_input_boost_kick_max_def devfreq_boost_kick_max_def
  adj_prio_def time_after_def atomic64_cmpxchg_def kick_max_commit_def BOOST_DURATION_MS_def
  tier_loop.simps SZ_1M_def tier_min_def tier_max_def

lemma example_pass_trace:
  "trace (fst (do_lmk_reclaim example_cfg 60 example_state)) =
     [CpuInputBoostKickMax 250, DevfreqBoostKickMax DEVFREQ_MSM_CPUBW 250,
        ScanAndKill 900 906 60 0, ScanAndKill 800 900 60 0,
        ScanAndKill 700 800 60 0, ScanAndKill 600 700 60 0,
        ScanAndKill 500 600 60 0, ScanAndKill 400 500 60 0,
        ScanAndKill 300 400 60 0, ScanAndKill 200 300 60 0,
        ScanAndKill 100 200 60 50, ScanAndKill 0 100 10 80]"
  by (simp add: ex_defs scan_defs pass_defs)

lemma tier_events_inj:
  "tier_events n i f rs = tier_events n i f rs' \<Longrightarrow> rs = rs'"
  by (induction rs arbitrary: i f rs'; case_tac rs') auto

theorem do_lmk_reclaim_tier_order_witness:
  "trace (fst (do_lmk_reclaim example_cfg 60 example_state)) =
     trace example_state @ [CpuInputBoostKickMax 250, DevfreqBoostKickMax DEVFREQ_MSM_CPUBW 250]
       @ tier_events 60 1 0 [0, 0, 0, 0, 0, 0, 0, 0, 50, 80] \<and>
   continues_below 60 0 [0, 0, 0, 0, 0, 0, 0, 0, 50, 80 :: ulong] \<and>
   (60 :: ulong) \<le> sum_list [0, 0, 0, 0, 0, 0, 0, 0, 50, 80]"
proof -
  from do_lmk_reclaim_tier_order[of example_cfg 60 example_state] obtain rs where
    rs: "trace (fst (do_lmk_reclaim example_cfg 60 example_state)) =
          trace example_state @ [CpuInputBoostKickMax 250, DevfreqBoostKickMax DEVFREQ_MSM_CPUBW 250]
            @ tier_events 60 1 0 rs" and cb: "continues_below 60 0 rs"
    by blast
  have "tier_events 60 1 0 rs = tier_events 60 1 0 [0, 0, 0, 0, 0, 0, 0, 0, 50, 80]"
    using rs unfolding example_pass_trace
    by (simp add: example_state_def tier_min_def tier_max_def adj_prio_def)
  then have "rs = [0, 0, 0, 0, 0, 0, 0, 0, 50, 80]" by (rule tier_events_inj)
  with rs cb show ?thesis by simp
qed


lemma tier_events_is_scan: "list_all is_scan (tier_events n i f rs)"
  by (induction rs arbitrary: i f) (simp_all add: is_scan_def)

lemma scan_task_no_rss: "get_mm_rss t = 0 \<Longrightarrow> scan_task min_adj max_adj t = (t, None)"
  by (simp add: scan_task_def find_lock_task_mm_def get_mm_rss_def Let_def split: option.splits)

lemma for_each_process_no_rss:
  "\<forall>t\<in>set ts. get_mm_rss t = 0 \<Longrightarrow> for_each_process min_adj max_adj needed ts freed = (ts, freed)"
  by (induction ts) (simp_all add: scan_task_no_rss)

lemma scan_and_kill_no_rss:
  "\<forall>t\<in>set (tasks s). get_mm_rss t = 0 \<Longrightarrow> scan_and_kill min_adj max_adj needed s = (s1, r) \<Longrightarrow>
     r = 0 \<and> tasks s1 = tasks s"
  by (auto simp: scan_and_kill_def for_each_process_no_rss emit_def)

lemma tier_loop_no_rss:
  "\<forall>t\<in>set (tasks s). get_mm_rss t = 0 \<Longrightarrow> tier_loop needed i s freed = (s', f') \<Longrightarrow>
     f' = freed \<and> tasks s' = tasks s"
proof (induction needed i s freed arbitrary: s' f' rule: tier_loop.induct)
  case (1 needed i s freed)
  show ?case
  proof (cases "i < length adj_prio")
    case False
    with "1.prems" show ?thesis by (simp add: tier_loop.simps)
  next
    case True
    obtain s1 r where sk: "scan_and_kill (scast (adj_prio ! i)) (scast (adj_prio ! (i - 1)))
                (needed - freed) s = (s1, r)"
      by (cases "scan_and_kill (scast (adj_prio ! i)) (scast (adj_prio ! (i - 1))) (needed - freed) s")
    from scan_and_kill_no_rss[OF "1.prems"(1) sk] have r: "r = 0" and t1: "tasks s1 = tasks s"
      by simp_all
    show ?thesis
    proof (cases "needed \<le> freed + r")
      case met: True
      with "1.prems" True sk show ?thesis using r t1 by (simp add: tier_loop.simps)
    next
      case False
      with "1.prems" True sk have rec: "tier_loop needed (Suc i) s1 (freed + r) = (s', f')"
        by (simp add: tier_loop.simps)
      have "\<forall>t\<in>set (tasks s1). get_mm_rss t = 0" using "1.prems"(1) t1 by simp
      from "1.IH"[OF True sk[symmetric] False this rec] show ?thesis using r t1 by simp
    qed
  qed
qed

text \<open>
  Claim C7. For every \<open>pages_needed\<close> and every state, \<open>do_lmk_reclaim\<close> first requests
  the CPU boost and the bus boost, each for 250 ms, and only then scans: what it adds to
  the trace is the two requests followed by scans only. When no process has a positive
  resident footprint it returns 0 and leaves the processes as they were, with both boost
  requests issued all the same.
\<close>

theorem do_lmk_reclaim_boosts_first:
  "\<exists>scans. trace (fst (do_lmk_reclaim cfg pages_needed s)) =
            trace s @ [CpuInputBoostKickMax 250, DevfreqBoostKickMax DEVFREQ_MSM_CPUBW 250] @ scans \<and>
          list_all is_scan scans \<and>
          ((\<forall>t\<in>set (tasks s). get_mm_rss t = 0) \<longrightarrow>
             snd (do_lmk_reclaim cfg pages_needed s) = 0 \<and>
             tasks (fst (do_lmk_reclaim cfg pages_needed s)) = tasks s)"
proof -
  let ?s2 = "devfreq_boost_kick_max DEVFREQ_MSM_CPUBW BOOST_DURATION_MS
                (cpu_input_boost_kick_max cfg BOOST_DURATION_MS s)"
  obtain s3 f where tl: "tier_loop pages_needed 1 ?s2 0 = (s3, f)"
    by (cases "tier_loop pages_needed 1 ?s2 0")
  have d: "do_lmk_reclaim cfg pages_needed s =
             (s3\<lparr>last_reclaim_jiffies := jiffies s3\<rparr>, f * PAGE_SIZE cfg div SZ_1M)"
    unfolding do_lmk_reclaim_unfold tl by simp
  from do_lmk_reclaim_scans[of cfg pages_needed s] obtain rs where
    tr: "trace (fst (do_lmk_reclaim cfg pages_needed s)) =
          trace s @ [CpuInputBoostKickMax 250, DevfreqBoostKickMax DEVFREQ_MSM_CPUBW 250]
            @ tier_events pages_needed 1 0 rs"
    by blast
  have z: "snd (do_lmk_reclaim cfg pages_needed s) = 0 \<and>
           tasks (fst (do_lmk_reclaim cfg pages_needed s)) = tasks s"
    if "\<forall>t\<in>set (tasks s). get_mm_rss t = 0"
  proof -
    have "\<forall>t\<in>set (tasks ?s2). get_mm_rss t = 0" using that by (simp add: boost_kicks_tasks)
    from tier_loop_no_rss[OF this tl] show ?thesis by (simp add: d boost_kicks_tasks)
  qed
  show ?thesis
    using tr z tier_events_is_scan[of pages_needed 1 0 rs]
    by (intro exI[of _ "tier_events pages_needed 1 0 rs"]) blast
qed

lemma example_idle_trace:
  "trace (fst (do_lmk_reclaim example_cfg 60 example_idle_state)) =
     [CpuInputBoostKickMax 250, DevfreqBoostKickMax DEVFREQ_MSM_CPUBW 250,
        ScanAndKill 900 906 60 0, ScanAndKill 800 900 60 0,
        ScanAndKill 700 800 60 0, ScanAndKill 600 700 60 0,
        ScanAndKill 500 600 60 0, ScanAndKill 400 500 60 0,
        ScanAndKill 300 400 60 0, ScanAndKill 200 300 60 0,
        ScanAndKill 100 200 60 0, ScanAndKill 0 100 60 0]"
  by (simp add: example_idle_state_def ex_defs scan_defs pass_defs)

theorem do_lmk_reclaim_boosts_first_witness:
  "get_mm_rss (tasks example_idle_state ! 0) = 0 \<and>
   get_mm_rss (tasks example_idle_state ! 1) = 0 \<and>
   length (tasks example_idle_state) = 2 \<and>
   snd (do_lmk_reclaim example_cfg 60 example_idle_state) = 0 \<and>
   tasks (fst (do_lmk_reclaim example_cfg 60 example_idle_state)) = tasks example_idle_state \<and>
   take 2 (trace (fst (do_lmk_reclaim example_cfg 60 example_idle_state))) =
     [CpuInputBoostKickMax 250, DevfreqBoostKickMax DEVFREQ_MSM_CPUBW 250]"
proof -
  have e: "\<forall>t\<in>set (tasks example_idle_state). get_mm_rss t = 0"
    by (simp add: example_idle_state_def ex_defs get_mm_rss_def)
  have r: "get_mm_rss (tasks example_idle_state ! 0) = 0 \<and>
           get_mm_rss (tasks example_idle_state ! 1) = 0 \<and>
           length (tasks example_idle_state) = 2"
    by (simp add: example_idle_state_def ex_defs get_mm_rss_def)
  from do_lmk_reclaim_boosts_first[of example_cfg 60 example_idle_state] e
  have "snd (do_lmk_reclaim example_cfg 60 example_idle_state) = 0 \<and>
        tasks (fst (do_lmk_reclaim example_cfg 60 example_idle_state)) = tasks example_idle_state"
    by blast
  with r show ?thesis by (simp add: example_idle_trace)
qed

text \<open>
  Claim C10. For every \<open>pages_needed > 0\<close>, at every scan that \<open>do_lmk_reclaim\<close> makes the
  pages freed so far are strictly below \<open>pages_needed\<close>, so the deficit passed to the scan
  is strictly positive and the unsigned subtraction did not wrap around (deficit plus
  pages freed so far is \<open>pages_needed\<close> as natural numbers).
\<close>

theorem do_lmk_reclaim_deficit_positive:
  "0 < pages_needed \<Longrightarrow>
     \<exists>rs. trace (fst (do_lmk_reclaim cfg pages_needed s)) =
            trace s @ [CpuInputBoostKickMax 250, DevfreqBoostKickMax DEVFREQ_MSM_CPUBW 250]
              @ tier_events pages_needed 1 0 rs \<and>
          deficits_positive pages_needed 0 rs"
  using do_lmk_reclaim_scans[of cfg pages_needed s] by blast

theorem do_lmk_reclaim_deficit_positive_witness:
  "(0 :: ulong) < 60 \<and>
   trace (fst (do_lmk_reclaim example_cfg 60 example_state)) =
     trace example_state @ [CpuInputBoostKickMax 250, DevfreqBoostKickMax DEVFREQ_MSM_CPUBW 250]
       @ tier_events 60 1 0 [0, 0, 0, 0, 0, 0, 0, 0, 50, 80] \<and>
   deficits_positive 60 0 [0, 0, 0, 0, 0, 0, 0, 0, 50, 80 :: ulong]"
proof -
  have p: "(0 :: ulong) < 60" by simp
  from do_lmk_reclaim_deficit_positive[OF p, of example_cfg example_state] obtain rs where
    rs: "trace (fst (do_lmk_reclaim example_cfg 60 example_state)) =
          trace example_state @ [CpuInputBoostKickMax 250, DevfreqBoostKickMax DEVFREQ_MSM_CPUBW 250]
            @ tier_events 60 1 0 rs" and dp: "deficits_positive 60 0 rs"
    by blast
  have "tier_events 60 1 0 rs = tier_events 60 1 0 [0, 0, 0, 0, 0, 0, 0, 0, 50, 80]"
    using rs unfolding example_pass_trace
    by (simp add: example_state_def tier_min_def tier_max_def adj_prio_def)
  then have "rs = [0, 0, 0, 0, 0, 0, 0, 0, 50, 80]" by (rule tier_events_inj)
  with rs dp p show ?thesis by simp
qed

section \<open>The tiers of the boundary table\<close>

lemma adj_prio_values:
  "1 \<le> i \<Longrightarrow> i \<le> 10 \<Longrightarrow> sint (adj_prio ! i) = 1000 - 100 * int i"
proof -
  assume "1 \<le> i" "i \<le> 10"
  then have "i = 1 \<or> i = 2 \<or> i = 3 \<or> i = 4 \<or> i = 5 \<or> i = 6 \<or> i = 7 \<or> i = 8 \<or> i = 9 \<or> i = 10"
    by arith
  then show ?thesis by (elim disjE) (simp_all add: adj_prio_def)
qed

lemma tier_min_value:
  "1 \<le> i \<Longrightarrow> i \<le> 10 \<Longrightarrow> sint (tier_min i) = 1000 - 100 * int i"
  by (simp add: tier_min_def sint_up_scast is_up adj_prio_values)

lemma tier_max_value:
  "1 \<le> i \<Longrightarrow> i \<le> 10 \<Longrightarrow> sint (tier_max i) = (if i = 1 then 906 else 1100 - 100 * int i)"
proof (cases "i = 1")
  case True
  then show ?thesis by (simp add: tier_max_def adj_prio_def)
next
  case False
  assume "1 \<le> i" "i \<le> 10"
  with False have "1 \<le> i - 1" "i - 1 \<le> 10" by simp_all
  from adj_prio_values[OF this] False \<open>1 \<le> i\<close> show ?thesis
    by (simp add: tier_max_def sint_up_scast is_up of_nat_diff)
qed

lemma tier_bounds:
  "map (\<lambda>i. (sint (tier_min i), sint (tier_max i))) [1, 2, 3, 4, 5, 6, 7, 8, 9, 10] =
     [(900, 906), (800, 900), (700, 800), (600, 700), (500, 600), (400, 500), (300, 400),
      (200, 300), (100, 200), (0, 100)]"
  by (simp add: tier_min_value tier_max_value)

lemma tier_accepts_iff:
  "1 \<le> i \<Longrightarrow> i \<le> 10 \<Longrightarrow>
     tier_accepts i score \<longleftrightarrow>
       1000 - 100 * int i \<le> sint score \<and> sint score \<le> (if i = 1 then 906 else 1100 - 100 * int i)"
  by (simp add: tier_accepts_def adj_in_range_def tier_min_value tier_max_value not_less)

text \<open>
  Both bounds of the eligibility test are inclusive, and tier 1 and tier 2 share the
  boundary 900: the score 900, which lies in the covered range, passes the test of both
  tiers. So the statement of C3 that every score is accepted by exactly one tier fails.
\<close>

theorem tiers_overlap_counterexample:
  "tier_accepts 1 900 \<and> tier_accepts 2 900 \<and> 0 \<le> sint (900 :: cshort) \<and> sint (900 :: cshort) \<le> 906"
  by (simp add: tier_accepts_iff)

text \<open>
  Claim C3, amended. The tiers cover the range 0..906 without gaps: every score in the
  range passes the eligibility test of at least one tier. Two different tiers accept the
  same score only when they are adjacent and the score is their common boundary
  (adj_prio[i] for the less important tier i); a score that is no boundary value is
  accepted by exactly one tier. The upper bound of tier i is the lower bound of tier i-1.
\<close>

theorem tiers_cover_range:
  assumes "0 \<le> sint score" "sint score \<le> 906"
  shows "(\<exists>i. 1 \<le> i \<and> i \<le> 10 \<and> tier_accepts i score) \<and>
         (\<forall>i j. 1 \<le> i \<and> i < j \<and> j \<le> 10 \<and> tier_accepts i score \<and> tier_accepts j score \<longrightarrow>
                 j = Suc i \<and> score = adj_prio ! i) \<and>
         (\<forall>i. 1 \<le> i \<and> i \<le> 10 \<and> (\<forall>k. 1 \<le> k \<and> k \<le> 10 \<longrightarrow> score \<noteq> adj_prio ! k) \<and> tier_accepts i score \<longrightarrow>
              (\<forall>j. 1 \<le> j \<and> j \<le> 10 \<and> tier_accepts j score \<longrightarrow> j = i)) \<and>
         (\<forall>i. 2 \<le> i \<and> i \<le> 10 \<longrightarrow> tier_max i = tier_min (i - 1))"
proof -
  let ?x = "sint score"
  have ex: "\<exists>i. 1 \<le> i \<and> i \<le> 10 \<and> tier_accepts i score"
  proof (cases "900 \<le> ?x")
    case True
    with assms have "tier_accepts 1 score" by (simp add: tier_accepts_iff)
    then show ?thesis by (intro exI[of _ 1]) simp
  next
    case False
    let ?i = "nat (10 - ?x div 100)"
    have b: "1 \<le> ?i" "?i \<le> 10" "?i \<noteq> 1" using assms False by simp_all
    have "int ?i = 10 - ?x div 100" using assms False by simp
    moreover have "100 * (?x div 100) \<le> ?x" "?x \<le> 100 + 100 * (?x div 100)" by presburger+
    ultimately have "tier_accepts ?i score" using b
      by (simp add: tier_accepts_iff del: of_nat_nat nat_diff_distrib) 
    with b show ?thesis by blast
  qed
  have adj: "j = Suc i \<and> score = adj_prio ! i"
    if "1 \<le> i" "i < j" "j \<le> 10" "tier_accepts i score" "tier_accepts j score" for i j
  proof -
    have i: "1000 - 100 * int i \<le> ?x" using that by (simp add: tier_accepts_iff)
    have j: "?x \<le> 1100 - 100 * int j" using that by (simp add: tier_accepts_iff)
    from i j that(2) have ji: "j = Suc i" by simp
    with i j have "?x = 1000 - 100 * int i" by simp
    then have "sint score = sint (adj_prio ! i)" using that by (simp add: adj_prio_values)
    then have "score = adj_prio ! i" by (rule signed_word_eqI)
    with ji show ?thesis by simp
  qed
  have uniq: "j = i"
    if "1 \<le> i" "i \<le> 10" "\<forall>k. 1 \<le> k \<and> k \<le> 10 \<longrightarrow> score \<noteq> adj_prio ! k" "tier_accepts i score"
       "1 \<le> j" "j \<le> 10" "tier_accepts j score" for i j
  proof (rule ccontr)
    assume "j \<noteq> i"
    then consider "i < j" | "j < i" by linarith
    then show False
    proof cases
      case 1
      from adj[OF that(1) 1 that(6) that(4) that(7)] have "score = adj_prio ! i" by simp
      with that(3)[rule_format, of i] that(1,2) show False by simp
    next
      case 2
      from adj[OF that(5) 2 that(2) that(7) that(4)] have "score = adj_prio ! j" by simp
      with that(3)[rule_format, of j] that(5,6) show False by simp
    qed
  qed
  have bd: "tier_max i = tier_min (i - 1)" for i by (simp add: tier_max_def tier_min_def)
  show ?thesis
  proof (intro conjI allI impI)
    show "\<exists>i. 1 \<le> i \<and> i \<le> 10 \<and> tier_accepts i score" by (rule ex)
  next
    fix i j
    assume "1 \<le> i \<and> i < j \<and> j \<le> 10 \<and> tier_accepts i score \<and> tier_accepts j score"
    then show "j = Suc i" "score = adj_prio ! i" using adj[of i j] by simp_all
  next
    fix i j
    assume "1 \<le> i \<and> i \<le> 10 \<and> (\<forall>k. 1 \<le> k \<and> k \<le> 10 \<longrightarrow> score \<noteq> adj_prio ! k) \<and> tier_accepts i score"
      and "1 \<le> j \<and> j \<le> 10 \<and> tier_accepts j score"
    then show "j = i" using uniq[of i j] by simp
  next
    fix i :: nat
    show "tier_max i = tier_min (i - 1)" by (rule bd)
  qed
qed

theorem tiers_cover_range_witness:
  "0 \<le> sint (850 :: cshort) \<and> sint (850 :: cshort) \<le> 906 \<and> tier_accepts 2 850 \<and>
   \<not> tier_accepts 1 850 \<and> \<not> tier_accepts 3 850 \<and> tier_max 2 = tier_min 1"
proof -
  have h: "0 \<le> sint (850 :: cshort)" "sint (850 :: cshort) \<le> 906" by simp_all
  have a: "tier_accepts 2 850" by (simp add: tier_accepts_iff)
  note t = tiers_cover_range[OF h]
  note u = t[THEN conjunct2, THEN conjunct1, rule_format]
  note v = t[THEN conjunct2, THEN conjunct2, THEN conjunct2, rule_format]
  have n1: "\<not> tier_accepts 1 850"
  proof
    assume "tier_accepts 1 850"
    with u[of 1 2] a have "(850 :: cshort) = adj_prio ! 1" by simp
    then show False by (simp add: adj_prio_def)
  qed
  have n3: "\<not> tier_accepts 3 850"
  proof
    assume "tier_accepts 3 850"
    with u[of 2 3] a have "(850 :: cshort) = adj_prio ! 2" by simp
    then show False by (simp add: adj_prio_def)
  qed
  have "tier_max 2 = tier_min (2 - 1)" by (rule v) simp
  then have "tier_max 2 = tier_min 1" by simp
  with h a n1 n3 show ?thesis by blast
qed

section \<open>Properties of the triggers and the activation\<close>

lemma scan_and_kill_frame:
  "scan_and_kill a b n s = (s1, r) \<Longrightarrow>
     same_engine s s1 \<and> last_reclaim_jiffies s1 = last_reclaim_jiffies s \<and> boost_drv_g s1 = boost_drv_g s"
  by (auto simp: scan_and_kill_def emit_def same_engine_def split: prod.splits)

lemma tier_loop_frame:
  "tier_loop needed i s freed = (s', f') \<Longrightarrow>
     same_engine s s' \<and> last_reclaim_jiffies s' = last_reclaim_jiffies s \<and> boost_drv_g s' = boost_drv_g s"
proof (induction needed i s freed arbitrary: s' f' rule: tier_loop.induct)
  case (1 needed i s freed)
  show ?case
  proof (cases "i < length adj_prio")
    case False
    with "1.prems" show ?thesis by (simp add: tier_loop.simps same_engine_def)
  next
    case True
    obtain s1 r where sk: "scan_and_kill (scast (adj_prio ! i)) (scast (adj_prio ! (i - 1)))
                (needed - freed) s = (s1, r)"
      by (cases "scan_and_kill (scast (adj_prio ! i)) (scast (adj_prio ! (i - 1))) (needed - freed) s")
    note f1 = scan_and_kill_frame[OF sk]
    show ?thesis
    proof (cases "needed \<le> freed + r")
      case met: True
      with "1.prems" True sk have "s' = s1" by (simp add: tier_loop.simps)
      with f1 show ?thesis by simp
    next
      case False
      with "1.prems" True sk have rec: "tier_loop needed (Suc i) s1 (freed + r) = (s', f')"
        by (simp add: tier_loop.simps)
      from "1.IH"[OF True sk[symmetric] False rec] f1 show ?thesis
        by (simp add: same_engine_def)
    qed
  qed
qed

lemma boost_kicks_frame:
  "same_engine s (devfreq_boost_kick_max dev d2 (cpu_input_boost_kick_max cfg d1 s)) \<and>
   last_reclaim_jiffies (devfreq_boost_kick_max dev d2 (cpu_input_boost_kick_max cfg d1 s)) =
     last_reclaim_jiffies s"
  by (simp add: devfreq_boost_kick_max_def cpu_input_boost_kick_max_def emit_def Let_def
        same_engine_def split: option.splits)

lemma do_lmk_reclaim_frame:
  "same_engine s (fst (do_lmk_reclaim cfg needed s)) \<and>
   last_reclaim_jiffies (fst (do_lmk_reclaim cfg needed s)) = jiffies s"
proof -
  let ?s2 = "devfreq_boost_kick_max DEVFREQ_MSM_CPUBW BOOST_DURATION_MS
                (cpu_input_boost_kick_max cfg BOOST_DURATION_MS s)"
  obtain s3 f where tl: "tier_loop needed 1 ?s2 0 = (s3, f)"
    by (cases "tier_loop needed 1 ?s2 0")
  have d: "do_lmk_reclaim cfg needed s =
             (s3\<lparr>last_reclaim_jiffies := jiffies s3\<rparr>, f * PAGE_SIZE cfg div SZ_1M)"
    unfolding do_lmk_reclaim_def Let_def tl by simp
  from tier_loop_frame[OF tl] boost_kicks_frame[of s DEVFREQ_MSM_CPUBW BOOST_DURATION_MS cfg BOOST_DURATION_MS]
  show ?thesis by (simp add: d same_engine_def)
qed

lemma passes_started_append [simp]:
  "passes_started (xs @ ys) = passes_started xs + passes_started ys"
  by (simp add: passes_started_def)

lemma passes_started_tier_events [simp]: "passes_started (tier_events n i f rs) = 0"
  by (induction rs arbitrary: i f) (simp_all add: passes_started_def)

subsection \<open>Wrap-safe clock comparisons\<close>

lemma sint_nonneg_iff: "(0 \<le> sint (w::64 word)) = (uint w < 2^63)"
proof -
  have s: "sint w = (uint w + 2^63) mod 2^64 - 2^63"
    using int_word_sint[of "uint w", where 'a=64] by simp
  have b: "0 \<le> uint w" "uint w < 2^64"
    using uint_lt2p[of w] by simp_all
  show ?thesis
  proof (cases "uint w < 2^63")
    case True
    with b have "(uint w + 2^63) mod 2^64 = uint w + 2^63" by simp
    with s True b show ?thesis by simp
  next
    case False
    have "(uint w + 2^63) mod 2^64 = (uint w + 2^63 - 2^64) mod 2^64"
      by (rule minus_mod_self2[symmetric])
    also have "\<dots> = uint w + 2^63 - 2^64" using False b by simp
    finally show ?thesis using s False b by simp
  qed
qed

lemma diff_sign:
  fixes a b :: "64 word"
  assumes "uint a < 2^63" "uint b < 2^63"
  shows "(0 \<le> sint (a - b)) = (uint b \<le> uint a)"
proof -
  define x where "x = uint a"
  define y where "y = uint b"
  have p: "0 \<le> x" "0 \<le> y" "x < 2^63" "y < 2^63" using assms by (simp_all add: x_def y_def)
  have u: "uint (a - b) = (if y \<le> x then x - y else x - y + 2^64)"
    unfolding x_def y_def by (simp add: uint_sub_if')
  have "(uint (a - b) < 2^63) = (y \<le> x)" unfolding u using p by auto
  then show ?thesis by (simp add: sint_nonneg_iff x_def y_def)
qed

lemma time_after_eq_elapsed0:
  fixes j l t :: "64 word"
  assumes "uint (j - l) < 2 ^ 63" "uint t \<le> 2 ^ 63"
  shows "(0 \<le> sint (j - (l + t))) \<longleftrightarrow> uint t \<le> uint (j - l)"
proof -
  have e: "j - (l + t) = (j - l) - t" by simp
  define x where "x = uint (j - l)"
  define y where "y = uint t"
  have p: "0 \<le> x" "0 \<le> y" "x < 2^63" "y \<le> 2^63" using assms by (simp_all add: x_def y_def)
  have u: "uint ((j - l) - t) = (if y \<le> x then x - y else x - y + 2^64)"
    unfolding x_def y_def by (simp add: uint_sub_if')
  have "(uint ((j - l) - t) < 2^63) = (y \<le> x)" unfolding u using p by auto
  then show ?thesis unfolding e by (simp add: sint_nonneg_iff x_def y_def)
qed

text \<open>
  As long as less than half the clock's range has passed since the last reclaim, the gate
  \<open>time_after_eq(jiffies, last + timeout)\<close> says that at least \<open>timeout\<close> jiffies have
  elapsed.
\<close>

lemma time_after_eq_elapsed:
  assumes "uint (j - l) < 2 ^ 63" "uint t \<le> 2 ^ 63"
  shows "time_after_eq j (l + t) \<longleftrightarrow> uint t \<le> uint (j - l)"
  using time_after_eq_elapsed0[OF assms] by (simp add: time_after_eq_def)

lemma passes_started_Cons:
  "passes_started (e # es) =
     (case e of CpuInputBoostKickMax _ \<Rightarrow> 1 | _ \<Rightarrow> 0) + passes_started es"
  by (simp add: passes_started_def split: event.splits)

lemma do_lmk_reclaim_one_pass:
  "passes_started (trace (fst (do_lmk_reclaim cfg needed s))) = Suc (passes_started (trace s))"
proof -
  from do_lmk_reclaim_scans[of cfg needed s] obtain rs where
    "trace (fst (do_lmk_reclaim cfg needed s)) =
          trace s @ [CpuInputBoostKickMax 250, DevfreqBoostKickMax DEVFREQ_MSM_CPUBW 250]
            @ tier_events needed 1 0 rs" by blast
  then show ?thesis by (simp add: passes_started_Cons)
qed

text \<open>
  Claim C5. \<open>simple_lmk_force_reclaim\<close> never sleeps on the lock: it always returns. With
  the engine ready, if the reclaim lock is held it returns at once and the state is
  unchanged; if it takes the lock but the urgent interval has not elapsed since the last
  reclaim (the gate \<open>time_after_eq(jiffies, last_reclaim_jiffies + LMK_OOM_TIMEOUT)\<close> fails)
  it releases the lock and returns with the state as it was, so nothing is freed and no
  process is signalled; otherwise it runs exactly one pass of \<open>do_lmk_reclaim\<close> with the
  lock held, records the time and returns with the lock released.
\<close>

theorem force_reclaim_never_blocks:
  "simple_lmk_force_reclaim cfg s \<noteq> Blocks \<and>
   (simple_lmk_ready s \<noteq> 0 \<and> reclaim_lock s \<longrightarrow> simple_lmk_force_reclaim cfg s = Returns s) \<and>
   (simple_lmk_ready s \<noteq> 0 \<and> \<not> reclaim_lock s \<and>
    \<not> time_after_eq (jiffies s) (last_reclaim_jiffies s + LMK_OOM_TIMEOUT cfg) \<longrightarrow>
      simple_lmk_force_reclaim cfg s = Returns s) \<and>
   (simple_lmk_ready s \<noteq> 0 \<and> \<not> reclaim_lock s \<and>
    time_after_eq (jiffies s) (last_reclaim_jiffies s + LMK_OOM_TIMEOUT cfg) \<longrightarrow>
      (\<exists>s'. simple_lmk_force_reclaim cfg s = Returns s' \<and>
            \<not> reclaim_lock s' \<and>
            passes_started (trace s') = Suc (passes_started (trace s)) \<and>
            tasks s' = tasks (fst (do_lmk_reclaim cfg (MIN_FREE_PAGES cfg) (s\<lparr>reclaim_lock := True\<rparr>))) \<and>
            last_reclaim_jiffies s' = jiffies s))"
proof -
  let ?s1 = "s\<lparr>reclaim_lock := True\<rparr>"
  let ?p = "do_lmk_reclaim cfg (MIN_FREE_PAGES cfg) ?s1"
  have 1: "simple_lmk_force_reclaim cfg s \<noteq> Blocks"
    by (simp add: simple_lmk_force_reclaim_def mutex_trylock_def Let_def split: prod.splits)
  have 2: "simple_lmk_force_reclaim cfg s = Returns s" if "simple_lmk_ready s \<noteq> 0" "reclaim_lock s"
    using that by (simp add: simple_lmk_force_reclaim_def mutex_trylock_def)
  have 3: "simple_lmk_force_reclaim cfg s = Returns s"
    if "simple_lmk_ready s \<noteq> 0" "\<not> reclaim_lock s"
       "\<not> time_after_eq (jiffies s) (last_reclaim_jiffies s + LMK_OOM_TIMEOUT cfg)"
    using that by (simp add: simple_lmk_force_reclaim_def mutex_trylock_def mutex_unlock_def)
  have 4: "\<exists>s'. simple_lmk_force_reclaim cfg s = Returns s' \<and>
            \<not> reclaim_lock s' \<and>
            passes_started (trace s') = Suc (passes_started (trace s)) \<and>
            tasks s' = tasks (fst ?p) \<and> last_reclaim_jiffies s' = jiffies s"
    if "simple_lmk_ready s \<noteq> 0" "\<not> reclaim_lock s"
       "time_after_eq (jiffies s) (last_reclaim_jiffies s + LMK_OOM_TIMEOUT cfg)"
  proof -
    obtain s2 mib where p: "?p = (s2, mib)" by (cases ?p)
    have s2: "s2 = fst ?p" by (simp add: p)
    have f: "last_reclaim_jiffies s2 = jiffies s"
      using do_lmk_reclaim_frame[of ?s1 cfg "MIN_FREE_PAGES cfg"] by (simp add: s2)
    have n: "passes_started (trace s2) = Suc (passes_started (trace s))"
      using do_lmk_reclaim_one_pass[of cfg "MIN_FREE_PAGES cfg" ?s1] by (simp add: s2)
    have "simple_lmk_force_reclaim cfg s =
            Returns (if mib \<noteq> 0 then pr_info ''oom: freed %lu MiB'' mib (mutex_unlock s2)
                     else mutex_unlock s2)"
      using that p by (simp add: simple_lmk_force_reclaim_def mutex_trylock_def Let_def)
    then show ?thesis using f n
      by (auto simp: mutex_unlock_def pr_info_def emit_def s2 passes_started_def)
  qed
  from 1 2 3 4 show ?thesis by blast
qed

lemmas trigger_defs = simple_lmk_force_reclaim_def mutex_trylock_def mutex_unlock_def pr_info_def
  MIN_FREE_PAGES_def time_after_eq_def

lemma example_after_reclaim_fields:
  "simple_lmk_ready example_after_reclaim = 1 \<and> \<not> reclaim_lock example_after_reclaim \<and>
   jiffies example_after_reclaim = 5000 \<and> last_reclaim_jiffies example_after_reclaim = 5000 \<and>
   passes_started (trace example_after_reclaim) = 1"
  by (simp add: example_after_reclaim_def trigger_defs ex_defs scan_defs pass_defs passes_started_def)

theorem force_reclaim_never_blocks_witness:
  "simple_lmk_force_reclaim example_cfg (example_state\<lparr>reclaim_lock := True\<rparr>) =
     Returns (example_state\<lparr>reclaim_lock := True\<rparr>) \<and>
   simple_lmk_force_reclaim example_cfg example_state = Returns example_after_reclaim \<and>
   passes_started (trace example_after_reclaim) = Suc (passes_started (trace example_state)) \<and>
   simple_lmk_force_reclaim example_cfg example_after_reclaim = Returns example_after_reclaim"
proof -
  have g0: "time_after_eq (jiffies example_state)
             (last_reclaim_jiffies example_state + LMK_OOM_TIMEOUT example_cfg)"
    by (simp add: example_state_def example_cfg_def time_after_eq_def)
  have g1: "\<not> time_after_eq (jiffies example_after_reclaim)
             (last_reclaim_jiffies example_after_reclaim + LMK_OOM_TIMEOUT example_cfg)"
    by (simp add: example_after_reclaim_fields example_cfg_def time_after_eq_def)
  have 1: "simple_lmk_force_reclaim example_cfg (example_state\<lparr>reclaim_lock := True\<rparr>) =
     Returns (example_state\<lparr>reclaim_lock := True\<rparr>)"
    using force_reclaim_never_blocks[of example_cfg "example_state\<lparr>reclaim_lock := True\<rparr>"]
    by (simp add: example_state_def)
  from force_reclaim_never_blocks[of example_cfg example_state] g0 obtain s' where
    s': "simple_lmk_force_reclaim example_cfg example_state = Returns s'"
        "passes_started (trace s') = Suc (passes_started (trace example_state))"
    by (auto simp: example_state_def)
  have e: "example_after_reclaim = s'" by (simp add: example_after_reclaim_def s')
  have 3: "simple_lmk_force_reclaim example_cfg example_after_reclaim = Returns example_after_reclaim"
    using force_reclaim_never_blocks[of example_cfg example_after_reclaim] g1
    by (simp add: example_after_reclaim_fields)
  from 1 s' 3 show ?thesis by (simp add: e)
qed

lemma reclaim_work_ready:
  "simple_lmk_reclaim_work cfg s = Returns s' \<Longrightarrow> simple_lmk_ready s' = simple_lmk_ready s"
proof -
  assume a: "simple_lmk_reclaim_work cfg s = Returns s'"
  let ?s1 = "s\<lparr>reclaim_lock := True\<rparr>"
  have "simple_lmk_ready (fst (do_lmk_reclaim cfg (MIN_FREE_PAGES cfg) ?s1)) = simple_lmk_ready s"
    using do_lmk_reclaim_frame[of ?s1 cfg "MIN_FREE_PAGES cfg"] by (simp add: same_engine_def)
  with a show ?thesis
    by (auto simp: simple_lmk_reclaim_work_def mutex_lock_def mutex_unlock_def pr_info_def emit_def
          queue_delayed_work_def Let_def split: if_splits prod.splits)
qed

lemma force_reclaim_ready:
  "simple_lmk_force_reclaim cfg s = Returns s' \<Longrightarrow> simple_lmk_ready s' = simple_lmk_ready s"
proof -
  assume a: "simple_lmk_force_reclaim cfg s = Returns s'"
  let ?s1 = "s\<lparr>reclaim_lock := True\<rparr>"
  have "simple_lmk_ready (fst (do_lmk_reclaim cfg (MIN_FREE_PAGES cfg) ?s1)) = simple_lmk_ready s"
    using do_lmk_reclaim_frame[of ?s1 cfg "MIN_FREE_PAGES cfg"] by (simp add: same_engine_def)
  with a show ?thesis
    by (auto simp: simple_lmk_force_reclaim_def mutex_trylock_def mutex_unlock_def pr_info_def emit_def
          Let_def split: if_splits prod.splits)
qed

lemma api_step_ready:
  "api_step cfg c s = Some s' \<Longrightarrow>
     simple_lmk_ready s' = simple_lmk_ready s \<or> (simple_lmk_ready s = 0 \<and> simple_lmk_ready s' = 1)"
proof (cases c)
  case (WriteMinfree alloc)
  assume "api_step cfg c s = Some s'"
  with WriteMinfree show ?thesis
    by (auto simp: simple_lmk_init_set_def split: if_splits option.splits sum.splits)
next
  case ForceReclaim
  assume "api_step cfg c s = Some s'"
  with ForceReclaim show ?thesis
    by (auto simp: returned_def split: outcome.splits dest: force_reclaim_ready)
next
  case StartReclaim
  assume "api_step cfg c s = Some s'"
  with StartReclaim show ?thesis
    by (auto simp: returned_def simple_lmk_start_reclaim_def queue_delayed_work_def emit_def
          split: outcome.splits if_splits)
next
  case StopReclaim
  assume "api_step cfg c s = Some s'"
  with StopReclaim show ?thesis
    by (auto simp: returned_def simple_lmk_stop_reclaim_def cancel_delayed_work_sync_def emit_def
          split: outcome.splits if_splits)
next
  case RunReclaimWork
  assume "api_step cfg c s = Some s'"
  with RunReclaimWork show ?thesis
    by (auto simp: returned_def split: outcome.splits if_splits dest: reclaim_work_ready)
next
  case (Tick n)
  assume "api_step cfg c s = Some s'"
  with Tick show ?thesis by auto
qed

lemma run_api_ready:
  "run_api cfg calls s = Some s' \<Longrightarrow>
     simple_lmk_ready s' = simple_lmk_ready s \<or> (simple_lmk_ready s = 0 \<and> simple_lmk_ready s' = 1)"
proof (induction calls arbitrary: s)
  case Nil
  then show ?case by simp
next
  case (Cons c calls)
  from Cons.prems obtain s1 where 1: "api_step cfg c s = Some s1" and 2: "run_api cfg calls s1 = Some s'"
    by (auto split: option.splits)
  from api_step_ready[OF 1] Cons.IH[OF 2] show ?case by auto
qed

text \<open>
  Claim C9. The readiness flag is set at most once and never cleared. A write to the
  parameter while the flag is unset sets it to 1 (when the work queue can be allocated; a
  failed allocation ends in \<open>BUG_ON\<close> with the flag unset), and a write while it is set
  changes nothing. While the flag is unset, \<open>simple_lmk_force_reclaim\<close>,
  \<open>simple_lmk_start_reclaim\<close> and \<open>simple_lmk_stop_reclaim\<close> return at once and leave the
  whole state as it was. Over any sequence of calls into the engine, a flag that is set
  keeps its value, and a flag that is unset stays 0 or becomes 1.
\<close>

theorem readiness_set_once:
  "(simple_lmk_ready s = 0 \<longrightarrow>
      simple_lmk_init_set (Some wq) s = Inr (0, s\<lparr>simple_lmk_wq := Some wq, simple_lmk_ready := 1\<rparr>) \<and>
      simple_lmk_init_set None s = Inl BUG \<and>
      simple_lmk_force_reclaim cfg s = Returns s \<and>
      simple_lmk_start_reclaim cfg s = Returns s \<and>
      simple_lmk_stop_reclaim s = Returns s) \<and>
   (simple_lmk_ready s \<noteq> 0 \<longrightarrow> simple_lmk_init_set alloc s = Inr (0, s)) \<and>
   (run_api cfg calls s = Some s' \<longrightarrow>
      (simple_lmk_ready s \<noteq> 0 \<longrightarrow> simple_lmk_ready s' = simple_lmk_ready s) \<and>
      (simple_lmk_ready s = 0 \<longrightarrow> simple_lmk_ready s' = 0 \<or> simple_lmk_ready s' = 1))"
proof -
  have 1: "simple_lmk_init_set (Some wq) s = Inr (0, s\<lparr>simple_lmk_wq := Some wq, simple_lmk_ready := 1\<rparr>) \<and>
      simple_lmk_init_set None s = Inl BUG \<and>
      simple_lmk_force_reclaim cfg s = Returns s \<and>
      simple_lmk_start_reclaim cfg s = Returns s \<and>
      simple_lmk_stop_reclaim s = Returns s" if "simple_lmk_ready s = 0"
    using that by (simp add: simple_lmk_init_set_def simple_lmk_force_reclaim_def
        simple_lmk_start_reclaim_def simple_lmk_stop_reclaim_def)
  have 2: "simple_lmk_init_set alloc s = Inr (0, s)" if "simple_lmk_ready s \<noteq> 0"
    using that by (simp add: simple_lmk_init_set_def)
  have 3: "(simple_lmk_ready s \<noteq> 0 \<longrightarrow> simple_lmk_ready s' = simple_lmk_ready s) \<and>
      (simple_lmk_ready s = 0 \<longrightarrow> simple_lmk_ready s' = 0 \<or> simple_lmk_ready s' = 1)"
    if "run_api cfg calls s = Some s'"
    using run_api_ready[OF that] by auto
  from 1 2 3 show ?thesis by blast
qed

lemmas api_defs = returned_def simple_lmk_init_set_def simple_lmk_start_reclaim_def
  simple_lmk_stop_reclaim_def simple_lmk_reclaim_work_def mutex_lock_def queue_delayed_work_def
  cancel_delayed_work_sync_def

lemma example_api_run_returns:
  "\<exists>s'. run_api example_cfg example_api_run example_uninit_state = Some s'"
  by (simp add: example_api_run_def example_uninit_state_def api_defs trigger_defs ex_defs
        scan_defs pass_defs)

theorem readiness_set_once_witness:
  "simple_lmk_ready example_uninit_state = 0 \<and>
   simple_lmk_force_reclaim example_cfg example_uninit_state = Returns example_uninit_state \<and>
   simple_lmk_init_set (Some 7) example_uninit_state =
     Inr (0, example_uninit_state\<lparr>simple_lmk_wq := Some 7, simple_lmk_ready := 1\<rparr>) \<and>
   simple_lmk_init_set (Some 8) (example_uninit_state\<lparr>simple_lmk_wq := Some 7, simple_lmk_ready := 1\<rparr>) =
     Inr (0, example_uninit_state\<lparr>simple_lmk_wq := Some 7, simple_lmk_ready := 1\<rparr>) \<and>
   simple_lmk_ready (the (run_api example_cfg example_api_run example_uninit_state)) = 1"
proof -
  have z: "simple_lmk_ready example_uninit_state = 0" by (simp add: example_uninit_state_def)
  let ?a = "example_uninit_state\<lparr>simple_lmk_wq := Some 7, simple_lmk_ready := 1\<rparr>"
  have a: "simple_lmk_ready ?a \<noteq> 0" by simp
  from example_api_run_returns obtain s' where
    r: "run_api example_cfg example_api_run example_uninit_state = Some s'" by blast
  have r2: "run_api example_cfg (drop 4 example_api_run) ?a = Some s'"
    using r by (simp add: example_api_run_def z api_defs simple_lmk_force_reclaim_def)
  have 1: "simple_lmk_force_reclaim example_cfg example_uninit_state = Returns example_uninit_state \<and>
   simple_lmk_init_set (Some 7) example_uninit_state = Inr (0, ?a)"
    using readiness_set_once[of example_uninit_state 7 example_cfg] z by blast
  have 2: "simple_lmk_init_set (Some 8) ?a = Inr (0, ?a)"
    using readiness_set_once[of ?a _ _ "Some 8"] a by blast
  have 3: "simple_lmk_ready s' = 1"
    using readiness_set_once[of ?a _ example_cfg _ "drop 4 example_api_run" s'] a r2 by simp
  from z 1 2 3 show ?thesis by (simp add: r)
qed

section \<open>Boost coalescing\<close>

lemma time_after_window:
  assumes "in_window base x" "in_window base y"
  shows "time_after x y \<longleftrightarrow> uint (y - base) < uint (x - base)"
proof -
  have e: "y - x = (y - base) - (x - base)" by simp
  have "(0 \<le> sint ((y - base) - (x - base))) = (uint (x - base) \<le> uint (y - base))"
    using assms by (intro diff_sign) (simp_all add: in_window_def)
  then show ?thesis unfolding time_after_def e by auto
qed

lemma time_after_irrefl: "\<not> time_after x x"
  by (simp add: time_after_def)

lemma kick_max_dropped:
  "time_after (max_boost_expires b) (j + m2j d) \<Longrightarrow> do_cpu_input_boost_kick_max m2j b d j cs = b"
  by (cases cs) (auto simp: Let_def)

lemma kick_max_expiry:
  "max_boost_expires (do_cpu_input_boost_kick_max m2j b d j []) =
     (if time_after (max_boost_expires b) (j + m2j d) then max_boost_expires b else j + m2j d)"
  by (simp add: Let_def atomic64_cmpxchg_def kick_max_commit_def)

lemma kick_max_retry:
  "\<not> time_after (max_boost_expires b) (j + m2j d) \<Longrightarrow>
     do_cpu_input_boost_kick_max m2j b d j ((other, jn) # cs) =
       (if other = max_boost_expires b
        then kick_max_commit (b\<lparr>max_boost_expires := j + m2j d\<rparr>) d
        else do_cpu_input_boost_kick_max m2j (b\<lparr>max_boost_expires := other\<rparr>) d jn cs)"
  by (simp add: Let_def atomic64_cmpxchg_def)

declare do_cpu_input_boost_kick_max.simps [simp del]


subsection \<open>Steps of a request\<close>

lemma kicker_step_Read:
  "kpc k = KickRead \<Longrightarrow>
     kicker_step m2j j k b =
       (k\<lparr>curr_expires := max_boost_expires b, new_expires := j + m2j (duration_ms k),
           kpc := (if time_after (max_boost_expires b) (j + m2j (duration_ms k))
                   then KickDone else KickExchange)\<rparr>, b)"
  by (simp add: kicker_step_def Let_def)

lemma kicker_step_Exchange:
  "kpc k = KickExchange \<Longrightarrow>
     kicker_step m2j j k b =
       (if max_boost_expires b = curr_expires k
        then (k\<lparr>kpc := KickCommit\<rparr>, b\<lparr>max_boost_expires := new_expires k\<rparr>)
        else (k\<lparr>kpc := KickRead\<rparr>, b))"
  by (simp add: kicker_step_def atomic64_cmpxchg_def)

lemma kicker_step_Commit:
  "kpc k = KickCommit \<Longrightarrow>
     kicker_step m2j j k b = (k\<lparr>kpc := KickDone\<rparr>, kick_max_commit b (duration_ms k))"
  by (simp add: kicker_step_def)

lemma kicker_step_Done: "kpc k = KickDone \<Longrightarrow> kicker_step m2j j k b = (k, b)"
  by (simp add: kicker_step_def)

lemmas kicker_steps = kicker_step_Read kicker_step_Exchange kicker_step_Commit kicker_step_Done

lemma kicker_step_duration:
  "kicker_step m2j j k b = (k', b') \<Longrightarrow> duration_ms k' = duration_ms k"
  by (cases "kpc k") (auto simp: kicker_steps split: if_splits)

lemma kicker_step_local:
  "kicker_step m2j j k b = (k', b') \<Longrightarrow> kick_local k'"
  by (cases "kpc k") (auto simp: kicker_steps kick_local_def split: if_splits)

lemma kicker_step_not_earlier:
  assumes "kicker_step m2j j k b = (k', b')" "kick_local k"
  shows "\<not> time_after (max_boost_expires b) (max_boost_expires b')"
  using assms
  by (cases "kpc k")
     (auto simp: kicker_steps kick_local_def time_after_irrefl kick_max_commit_def split: if_splits)

lemma set_update_cases: "x \<in> set (xs[t := y]) \<Longrightarrow> x = y \<or> x \<in> set xs"
  using set_update_subset_insert[of xs t y] by auto

lemma boost_step_local:
  assumes "\<forall>k \<in> set (kickers sys). kick_local k"
  shows "\<forall>k \<in> set (kickers (boost_step m2j ev sys)). kick_local k"
proof (cases ev)
  case (KickStep t)
  show ?thesis
  proof (cases "t < length (kickers sys)")
    case False
    with KickStep assms show ?thesis by (simp add: boost_step_def)
  next
    case True
    obtain k' b' where st: "kicker_step m2j (clock sys) (kickers sys ! t) (drv sys) = (k', b')"
      by (cases "kicker_step m2j (clock sys) (kickers sys ! t) (drv sys)")
    have "kick_local k'" using st by (rule kicker_step_local)
    with assms show ?thesis using True KickStep st
      by (auto simp: boost_step_def dest: set_update_cases)
  qed
next
  case (OtherStore v)
  with assms show ?thesis by (simp add: boost_step_def)
next
  case (ClockSet j)
  with assms show ?thesis by (simp add: boost_step_def)
qed

lemma run_boost_local:
  "\<forall>k \<in> set (kickers sys). kick_local k \<Longrightarrow>
     \<forall>k \<in> set (kickers (run_boost m2j evs sys)). kick_local k"
proof (induction evs arbitrary: sys)
  case Nil
  then show ?case by simp
next
  case (Cons ev evs)
  have "\<forall>k \<in> set (kickers (boost_step m2j ev sys)). kick_local k"
    using Cons.prems by (rule boost_step_local)
  from Cons.IH[OF this] show ?case by simp
qed

lemma all_fresh_local: "all_fresh sys \<Longrightarrow> \<forall>k \<in> set (kickers sys). kick_local k"
  by (auto simp: all_fresh_def filter_empty_conv kick_local_def)

lemma kick_step_not_earlier:
  assumes "\<forall>k \<in> set (kickers sys). kick_local k"
  shows "\<not> time_after (max_boost_expires (drv sys))
           (max_boost_expires (drv (boost_step m2j (KickStep t) sys)))"
proof (cases "t < length (kickers sys)")
  case False
  then show ?thesis by (simp add: boost_step_def time_after_irrefl)
next
  case True
  obtain k' b' where st: "kicker_step m2j (clock sys) (kickers sys ! t) (drv sys) = (k', b')"
    by (cases "kicker_step m2j (clock sys) (kickers sys ! t) (drv sys)")
  have "kick_local (kickers sys ! t)" using assms True by simp
  from kicker_step_not_earlier[OF st this] show ?thesis using True st
    by (simp add: boost_step_def)
qed

subsection \<open>The invariant of a race\<close>

lemma coalesce_inv_step:
  assumes inv: "coalesce_inv m2j base s0 j ds sys"
    and w0: "in_window base s0" and wd: "\<forall>d \<in> set ds. in_window base (j + m2j d)"
  shows "coalesce_inv m2j base s0 j ds (boost_step m2j (KickStep t) sys)"
proof (cases "t < length (kickers sys)")
  case False
  with inv show ?thesis by (simp add: boost_step_def)
next
  case True
  let ?k = "kickers sys ! t" and ?b = "drv sys"
  let ?c = "max_boost_expires ?b"
  let ?E = "j + m2j (duration_ms ?k)"
  obtain k' b' where st: "kicker_step m2j (clock sys) ?k ?b = (k', b')"
    by (cases "kicker_step m2j (clock sys) ?k ?b")
  have step: "boost_step m2j (KickStep t) sys = sys\<lparr>drv := b', kickers := (kickers sys)[t := k']\<rparr>"
    using True st by (simp add: boost_step_def)
  have kin: "?k \<in> set (kickers sys)" using True by simp
  have cl: "clock sys = j" and ds: "map duration_ms (kickers sys) = ds"
    and lo: "uint (s0 - base) \<le> uint (?c - base)"
    and mem: "?c = s0 \<or> ?c \<in> (\<lambda>d. j + m2j d) ` set ds"
    and loc: "\<forall>k \<in> set (kickers sys).
         (kpc k = KickExchange \<longrightarrow>
            new_expires k = j + m2j (duration_ms k) \<and>
            \<not> time_after (curr_expires k) (new_expires k)) \<and>
         (kpc k = KickCommit \<or> kpc k = KickDone \<longrightarrow>
            uint (j + m2j (duration_ms k) - base) \<le> uint (?c - base))"
    using inv[unfolded coalesce_inv_def] by blast+
  have dk: "duration_ms ?k \<in> set ds" using ds kin by (metis image_eqI list.set_map)
  have wE: "in_window base ?E" using wd dk by simp
  have wc: "in_window base ?c" using mem w0 wd by auto
  have dur: "duration_ms k' = duration_ms ?k" using st by (rule kicker_step_duration)
  have "map duration_ms ((kickers sys)[t := k']) =
          (map duration_ms (kickers sys))[t := duration_ms (kickers sys ! t)]"
    by (simp add: map_update dur)
  also have "\<dots> = map duration_ms (kickers sys)"
    using True by (simp add: list_update_same_conv)
  finally have ds': "map duration_ms ((kickers sys)[t := k']) = ds" using ds by simp
  have main: "uint (?c - base) \<le> uint (max_boost_expires b' - base) \<and>
        (max_boost_expires b' = ?c \<or> max_boost_expires b' = ?E) \<and>
        (kpc k' = KickExchange \<longrightarrow>
            new_expires k' = ?E \<and> \<not> time_after (curr_expires k') (new_expires k')) \<and>
        (kpc k' = KickCommit \<or> kpc k' = KickDone \<longrightarrow>
            uint (?E - base) \<le> uint (max_boost_expires b' - base))"
  proof (cases "kpc ?k")
    case KickRead
    then show ?thesis using st cl time_after_window[OF wc wE]
      by (auto simp: kicker_step_Read)
  next
    case KickExchange
    with loc kin have n: "new_expires ?k = ?E" and na: "\<not> time_after (curr_expires ?k) ?E"
      by auto
    show ?thesis
    proof (cases "?c = curr_expires ?k")
      case True
      with na have "\<not> time_after ?c ?E" by simp
      then have "uint (?c - base) \<le> uint (?E - base)"
        using time_after_window[OF wc wE] by simp
      then show ?thesis using st KickExchange True n by (auto simp: kicker_step_Exchange)
    next
      case False
      then show ?thesis using st KickExchange by (auto simp: kicker_step_Exchange)
    qed
  next
    case KickCommit
    with loc kin have "uint (?E - base) \<le> uint (?c - base)" by auto
    then show ?thesis using st KickCommit by (auto simp: kicker_step_Commit kick_max_commit_def)
  next
    case KickDone
    with loc kin have "uint (?E - base) \<le> uint (?c - base)" by auto
    then show ?thesis using st KickDone by (auto simp: kicker_step_Done)
  qed
  have mem': "max_boost_expires b' = s0 \<or> max_boost_expires b' \<in> (\<lambda>d. j + m2j d) ` set ds"
    using main mem dk by auto
  have loc': "(kpc k = KickExchange \<longrightarrow>
            new_expires k = j + m2j (duration_ms k) \<and>
            \<not> time_after (curr_expires k) (new_expires k)) \<and>
         (kpc k = KickCommit \<or> kpc k = KickDone \<longrightarrow>
            uint (j + m2j (duration_ms k) - base) \<le> uint (max_boost_expires b' - base))"
    if "k \<in> set ((kickers sys)[t := k'])" for k
  proof -
    from that consider "k = k'" | "k \<in> set (kickers sys)" by (auto dest: set_update_cases)
    then show ?thesis
    proof cases
      case 1
      then show ?thesis using main dur by auto
    next
      case 2
      with loc main show ?thesis by fastforce
    qed
  qed
  have lo': "uint (s0 - base) \<le> uint (max_boost_expires b' - base)"
    using lo main by linarith
  show ?thesis
    unfolding step coalesce_inv_def
  proof (intro conjI ballI)
    show "clock (sys\<lparr>drv := b', kickers := (kickers sys)[t := k']\<rparr>) = j" using cl by simp
    show "map duration_ms (kickers (sys\<lparr>drv := b', kickers := (kickers sys)[t := k']\<rparr>)) = ds"
      using ds' by simp
    show "uint (s0 - base)
            \<le> uint (max_boost_expires (drv (sys\<lparr>drv := b', kickers := (kickers sys)[t := k']\<rparr>)) - base)"
      using lo' by simp
    show "max_boost_expires (drv (sys\<lparr>drv := b', kickers := (kickers sys)[t := k']\<rparr>)) = s0 \<or>
          max_boost_expires (drv (sys\<lparr>drv := b', kickers := (kickers sys)[t := k']\<rparr>))
            \<in> (\<lambda>d. j + m2j d) ` set ds"
      using mem' by simp
  next
    fix k assume "k \<in> set (kickers (sys\<lparr>drv := b', kickers := (kickers sys)[t := k']\<rparr>))"
    then have k: "k \<in> set ((kickers sys)[t := k'])" by simp
    from loc'[OF k]
    show "kpc k = KickExchange \<longrightarrow>
            new_expires k = j + m2j (duration_ms k) \<and>
            \<not> time_after (curr_expires k) (new_expires k)"
      by blast
    from loc'[OF k]
    show "kpc k = KickCommit \<or> kpc k = KickDone \<longrightarrow>
            uint (j + m2j (duration_ms k) - base)
              \<le> uint (max_boost_expires (drv (sys\<lparr>drv := b', kickers := (kickers sys)[t := k']\<rparr>)) - base)"
      by simp
  qed
qed

lemma coalesce_inv_run:
  assumes "coalesce_inv m2j base s0 j ds sys" "in_window base s0"
    "\<forall>d \<in> set ds. in_window base (j + m2j d)" "list_all is_kick evs"
  shows "coalesce_inv m2j base s0 j ds (run_boost m2j evs sys)"
  using assms
proof (induction evs arbitrary: sys)
  case Nil
  then show ?case by simp
next
  case (Cons ev evs)
  from Cons.prems(4) obtain t where ev: "ev = KickStep t"
    by (cases ev) (simp_all add: is_kick_def)
  have "coalesce_inv m2j base s0 j ds (boost_step m2j ev sys)"
    unfolding ev using Cons.prems(1-3) by (rule coalesce_inv_step)
  from Cons.IH[OF this Cons.prems(2,3)] Cons.prems(4) show ?case by simp
qed

lemma coalesce_inv_fresh:
  "all_fresh sys \<Longrightarrow>
     coalesce_inv m2j base (max_boost_expires (drv sys)) (clock sys)
       (map duration_ms (kickers sys)) sys"
  by (auto simp: coalesce_inv_def all_fresh_def filter_empty_conv)


lemma race_final:
  assumes fresh: "all_fresh sys"
    and w0: "in_window base (max_boost_expires (drv sys))"
    and wd: "\<forall>k \<in> set (kickers sys). in_window base (clock sys + m2j (duration_ms k))"
    and ks: "list_all is_kick evs"
    and dn: "all_done (run_boost m2j evs sys)"
  shows "\<not> time_after (max_boost_expires (drv sys)) (max_boost_expires (drv (run_boost m2j evs sys))) \<and>
         (\<forall>k \<in> set (kickers sys).
            \<not> time_after (clock sys + m2j (duration_ms k))
                 (max_boost_expires (drv (run_boost m2j evs sys)))) \<and>
         (max_boost_expires (drv (run_boost m2j evs sys)) = max_boost_expires (drv sys) \<or>
          (\<exists>k \<in> set (kickers sys).
             max_boost_expires (drv (run_boost m2j evs sys)) = clock sys + m2j (duration_ms k)))"
proof -
  let ?s0 = "max_boost_expires (drv sys)" and ?j = "clock sys"
  let ?ds = "map duration_ms (kickers sys)"
  let ?f = "run_boost m2j evs sys"
  let ?e = "max_boost_expires (drv ?f)"
  have wd': "\<forall>d \<in> set ?ds. in_window base (?j + m2j d)" using wd by simp
  have inv: "coalesce_inv m2j base ?s0 ?j ?ds ?f"
    using coalesce_inv_fresh[OF fresh] w0 wd' ks by (rule coalesce_inv_run)
  note i = inv[unfolded coalesce_inv_def]
  have ds: "map duration_ms (kickers ?f) = ?ds" using i by blast
  have lo: "uint (?s0 - base) \<le> uint (?e - base)" using i by blast
  have mem: "?e = ?s0 \<or> ?e \<in> (\<lambda>d. ?j + m2j d) ` set ?ds" using i by blast
  have fin: "\<forall>k \<in> set (kickers ?f). uint (?j + m2j (duration_ms k) - base) \<le> uint (?e - base)"
  proof
    fix k assume k: "k \<in> set (kickers ?f)"
    then have "kpc k = KickDone" using dn by (auto simp: all_done_def filter_empty_conv)
    with i k show "uint (?j + m2j (duration_ms k) - base) \<le> uint (?e - base)" by blast
  qed
  have we: "in_window base ?e" using mem w0 wd' by auto
  have 1: "\<not> time_after ?s0 ?e" using time_after_window[OF w0 we] lo by simp
  have 2: "\<not> time_after (?j + m2j (duration_ms k)) ?e" if "k \<in> set (kickers sys)" for k
  proof -
    have "duration_ms k \<in> set (map duration_ms (kickers ?f))" using that ds by simp
    then obtain k' where k': "k' \<in> set (kickers ?f)" "duration_ms k' = duration_ms k" by auto
    with fin have "uint (?j + m2j (duration_ms k) - base) \<le> uint (?e - base)" by metis
    moreover have "in_window base (?j + m2j (duration_ms k))" using wd that by simp
    ultimately show ?thesis using time_after_window[OF _ we] by simp
  qed
  have 3: "?e = ?s0 \<or> (\<exists>k \<in> set (kickers sys). ?e = ?j + m2j (duration_ms k))"
    using mem by auto
  from 1 2 3 show ?thesis by blast
qed

lemma race_two_final:
  assumes ks2: "kickers sys = [new_kicker d1, new_kicker d2]"
    and w0: "in_window base (max_boost_expires (drv sys))"
    and w1: "in_window base (clock sys + m2j d1)" and w2: "in_window base (clock sys + m2j d2)"
    and lt: "time_after (clock sys + m2j d2) (clock sys + m2j d1)"
    and ks: "list_all is_kick evs"
    and dn: "all_done (run_boost m2j evs sys)"
  shows "max_boost_expires (drv (run_boost m2j evs sys)) =
           (if time_after (max_boost_expires (drv sys)) (clock sys + m2j d2)
            then max_boost_expires (drv sys) else clock sys + m2j d2)"
proof -
  let ?s0 = "max_boost_expires (drv sys)" and ?E1 = "clock sys + m2j d1" and ?E2 = "clock sys + m2j d2"
  let ?e = "max_boost_expires (drv (run_boost m2j evs sys))"
  have fresh: "all_fresh sys" by (simp add: all_fresh_def ks2 new_kicker_def)
  have wd: "\<forall>k \<in> set (kickers sys). in_window base (clock sys + m2j (duration_ms k))"
    using w1 w2 by (simp add: ks2 new_kicker_def)
  from race_final[OF fresh w0 wd ks dn]
  have a: "\<not> time_after ?s0 ?e" and b1: "\<not> time_after ?E1 ?e" and b2: "\<not> time_after ?E2 ?e"
    and c: "?e = ?s0 \<or> ?e = ?E1 \<or> ?e = ?E2"
    by (auto simp: ks2 new_kicker_def)
  show ?thesis
  proof (cases "time_after ?s0 ?E2")
    case True
    have "?e \<noteq> ?E2" using a True by auto
    moreover have "?e \<noteq> ?E1" using b2 lt by auto
    ultimately show ?thesis using c True by simp
  next
    case False
    have "?e = ?E2"
    proof (rule ccontr)
      assume n: "?e \<noteq> ?E2"
      with c consider "?e = ?s0" | "?e = ?E1" by blast
      then show False
      proof cases
        case 1
        with b2 False n show False
          using time_after_window[OF w0 w2] time_after_window[OF w2 w0]
          by (simp add: in_window_def) (metis linorder_neqE_linordered_idom word_uint_eqI diff_eq_eq)
      next
        case 2
        with b2 lt show False by simp
      qed
    qed
    with False show ?thesis by simp
  qed
qed


subsection \<open>The loop, case by case\<close>

lemma kick_max_stores:
  assumes "\<not> time_after (max_boost_expires b) (j + m2j d)"
  shows "do_cpu_input_boost_kick_max m2j b d j [] =
           b\<lparr>max_boost_expires := j + m2j d, max_boost_dur := d,
              max_boost_queued := Suc (max_boost_queued b)\<rparr>"
    and "do_cpu_input_boost_kick_max m2j b d j ((max_boost_expires b, jn) # cs) =
           b\<lparr>max_boost_expires := j + m2j d, max_boost_dur := d,
              max_boost_queued := Suc (max_boost_queued b)\<rparr>"
  using assms
  by (simp_all add: do_cpu_input_boost_kick_max.simps Let_def atomic64_cmpxchg_def kick_max_commit_def)

lemma kick_max_disturbed:
  assumes "\<not> time_after (max_boost_expires b) (j + m2j d)" "other \<noteq> max_boost_expires b"
  shows "do_cpu_input_boost_kick_max m2j b d j ((other, jn) # cs) =
           do_cpu_input_boost_kick_max m2j (b\<lparr>max_boost_expires := other\<rparr>) d jn cs"
  using assms by (simp add: kick_max_retry)

lemma kick_max_keeps_later:
  assumes "\<not> time_after (max_boost_expires b) (j + m2j d)"
  shows "\<not> time_after other
           (max_boost_expires (do_cpu_input_boost_kick_max m2j b d j [(other, jn)]))"
proof (cases "other = max_boost_expires b")
  case True
  with assms show ?thesis by (simp add: kick_max_stores(2)[of b j m2j d, OF assms])
next
  case False
  show ?thesis
    unfolding kick_max_disturbed[of b j m2j d other, OF assms False]
    by (simp add: kick_max_expiry time_after_irrefl)
qed

subsection \<open>A request running alone\<close>

lemma kicker_solo:
  "drv (run_boost m2j [KickStep 0, KickStep 0, KickStep 0]
          \<lparr>drv = b, clock = j, kickers = [new_kicker d]\<rparr>) =
     do_cpu_input_boost_kick_max m2j b d j []"
proof (cases "time_after (max_boost_expires b) (j + m2j d)")
  case True
  then show ?thesis
    by (simp add: boost_step_def new_kicker_def kicker_steps kick_max_dropped)
next
  case False
  then show ?thesis
    by (simp add: boost_step_def new_kicker_def kicker_steps kick_max_stores(1)[of b j m2j d, OF False]
          kick_max_commit_def)
qed

lemma kicker_disturbed_once:
  assumes "\<not> time_after (max_boost_expires b) (j + m2j d)"
  shows "drv (run_boost m2j
                [KickStep 0, OtherStore other, ClockSet jn, KickStep 0, KickStep 0, KickStep 0,
                 KickStep 0]
                \<lparr>drv = b, clock = j, kickers = [new_kicker d]\<rparr>) =
           do_cpu_input_boost_kick_max m2j b d j [(other, jn)]"
proof (cases "other = max_boost_expires b")
  case True
  have "b\<lparr>max_boost_expires := max_boost_expires b\<rparr> = b" by simp
  with True assms show ?thesis
    by (simp add: boost_step_def new_kicker_def kicker_steps kick_max_stores(2)[of b j m2j d, OF assms]
          kick_max_commit_def)
next
  case False
  show ?thesis
  proof (cases "time_after other (jn + m2j d)")
    case True
    with False assms show ?thesis
      by (simp add: boost_step_def new_kicker_def kicker_steps kick_max_disturbed[of b j m2j d other, OF assms False]
            kick_max_dropped)
  next
    case nd: False
    have "do_cpu_input_boost_kick_max m2j (b\<lparr>max_boost_expires := other\<rparr>) d jn [] =
            b\<lparr>max_boost_expires := jn + m2j d, max_boost_dur := d,
               max_boost_queued := Suc (max_boost_queued b)\<rparr>"
      using kick_max_stores(1)[of "b\<lparr>max_boost_expires := other\<rparr>" jn m2j d] nd by simp
    with False assms nd show ?thesis
      by (simp add: boost_step_def new_kicker_def kicker_steps kick_max_disturbed[of b j m2j d other, OF assms False]
            kick_max_commit_def)
  qed
qed

subsection \<open>Set-if-greater\<close>

text \<open>The two example races, run to their end.\<close>

lemma example_race_late_first_run:
  "run_boost ucast example_race_late_first example_boost_system =
     \<lparr>drv = \<lparr>max_boost_expires = 5600, max_boost_dur = 600, boost_state = 1,
              max_boost_queued = 1\<rparr>,
      clock = 5000,
      kickers = [\<lparr>kpc = KickDone, duration_ms = 250, curr_expires = 5600, new_expires = 5250\<rparr>,
                 \<lparr>kpc = KickDone, duration_ms = 600, curr_expires = 1000, new_expires = 5600\<rparr>]\<rparr>"
  by (simp add: example_race_late_first_def example_boost_system_def example_boost_def
      new_kicker_def boost_step_def kicker_step_def atomic64_cmpxchg_def kick_max_commit_def
      time_after_def Let_def)

lemma example_race_early_first_run:
  "run_boost ucast example_race_early_first example_boost_system =
     \<lparr>drv = \<lparr>max_boost_expires = 5600, max_boost_dur = 600, boost_state = 1,
              max_boost_queued = 2\<rparr>,
      clock = 5000,
      kickers = [\<lparr>kpc = KickDone, duration_ms = 250, curr_expires = 1000, new_expires = 5250\<rparr>,
                 \<lparr>kpc = KickDone, duration_ms = 600, curr_expires = 5250, new_expires = 5600\<rparr>]\<rparr>"
  by (simp add: example_race_early_first_def example_boost_system_def example_boost_def
      new_kicker_def boost_step_def kicker_step_def atomic64_cmpxchg_def kick_max_commit_def
      time_after_def Let_def)

text \<open>
  Claim C8. Boost coalescing is set-if-greater over the stored expiry. "Earlier" and
  "later" are the kernel's wrap-safe order \<open>time_after\<close>, a linear order on clock values
  within one window of half the clock's range.

  \<^item> A request whose computed expiry \<open>jiffies + msecs_to_jiffies(duration_ms)\<close> is earlier
    than the stored expiry is dropped: the driver state is unchanged, whatever other CPUs
    store meanwhile.
  \<^item> A request that is not dropped at its first read stores exactly its own expiry,
    publishes its duration and queues the boost work once, when its exchange is
    undisturbed or when another CPU stored the very value that was read. When another
    CPU stored a different value in between, the exchange fails, nothing is stored, and
    the loop starts again from that value and the new clock; after one such disturbance
    the stored expiry is not earlier than the value the other CPU stored.
  \<^item> An undisturbed request never leaves an expiry earlier than the one it found.
  \<^item> Two requests one after the other, with expiries E1 earlier than E2, leave the same
    stored expiry in either order: E2, unless a later expiry was stored before, which
    then stays.
  \<^item> Any number of requests running concurrently, interleaved step by step with each other
    and with stores by other CPUs and clock ticks: no step of a request ever replaces the
    stored expiry by an earlier one.
  \<^item> Two concurrent requests with expiries E1 earlier than E2, in every interleaving of
    their steps: once both have finished, the stored expiry is E2, unless a later expiry
    was stored before, which then stays.
  \<^item> Any number of concurrent requests, in every interleaving: once all have finished, the
    stored expiry is not earlier than the initial one nor than any request's expiry, and
    it is the initial one or the expiry of one of the requests.

  In the last two items the requests run within one clock tick and no CPU outside the
  system stores meanwhile, so that each request has one expiry, \<open>clock + msecs_to_jiffies\<close>
  of its duration.
\<close>

theorem kick_max_set_if_greater:
  "(time_after (max_boost_expires b) (j + m2j d) \<longrightarrow>
      do_cpu_input_boost_kick_max m2j b d j cs = b) \<and>
   (\<not> time_after (max_boost_expires b) (j + m2j d) \<longrightarrow>
      do_cpu_input_boost_kick_max m2j b d j [] =
        b\<lparr>max_boost_expires := j + m2j d, max_boost_dur := d,
           max_boost_queued := Suc (max_boost_queued b)\<rparr> \<and>
      do_cpu_input_boost_kick_max m2j b d j ((max_boost_expires b, jn) # cs) =
        b\<lparr>max_boost_expires := j + m2j d, max_boost_dur := d,
           max_boost_queued := Suc (max_boost_queued b)\<rparr> \<and>
      (other \<noteq> max_boost_expires b \<longrightarrow>
         do_cpu_input_boost_kick_max m2j b d j ((other, jn) # cs) =
           do_cpu_input_boost_kick_max m2j (b\<lparr>max_boost_expires := other\<rparr>) d jn cs) \<and>
      \<not> time_after other
           (max_boost_expires (do_cpu_input_boost_kick_max m2j b d j [(other, jn)]))) \<and>
   \<not> time_after (max_boost_expires b)
        (max_boost_expires (do_cpu_input_boost_kick_max m2j b d j [])) \<and>
   (in_window base (max_boost_expires b) \<and> in_window base (ja + m2j da) \<and>
    in_window base (jb + m2j db) \<and> time_after (jb + m2j db) (ja + m2j da) \<longrightarrow>
      max_boost_expires
        (do_cpu_input_boost_kick_max m2j (do_cpu_input_boost_kick_max m2j b da ja []) db jb []) =
      max_boost_expires
        (do_cpu_input_boost_kick_max m2j (do_cpu_input_boost_kick_max m2j b db jb []) da ja []) \<and>
      max_boost_expires
        (do_cpu_input_boost_kick_max m2j (do_cpu_input_boost_kick_max m2j b da ja []) db jb []) =
        (if time_after (max_boost_expires b) (jb + m2j db) then max_boost_expires b
         else jb + m2j db)) \<and>
   (all_fresh sys \<longrightarrow>
      \<not> time_after (max_boost_expires (drv (run_boost m2j evs sys)))
           (max_boost_expires (drv (boost_step m2j (KickStep t) (run_boost m2j evs sys))))) \<and>
   (kickers sys = [new_kicker da, new_kicker db] \<and>
    in_window base (max_boost_expires (drv sys)) \<and>
    in_window base (clock sys + m2j da) \<and> in_window base (clock sys + m2j db) \<and>
    time_after (clock sys + m2j db) (clock sys + m2j da) \<and>
    list_all is_kick evs \<and> all_done (run_boost m2j evs sys) \<longrightarrow>
      max_boost_expires (drv (run_boost m2j evs sys)) =
        (if time_after (max_boost_expires (drv sys)) (clock sys + m2j db)
         then max_boost_expires (drv sys) else clock sys + m2j db)) \<and>
   (all_fresh sys \<and> in_window base (max_boost_expires (drv sys)) \<and>
    (\<forall>k \<in> set (kickers sys). in_window base (clock sys + m2j (duration_ms k))) \<and>
    list_all is_kick evs \<and> all_done (run_boost m2j evs sys) \<longrightarrow>
      \<not> time_after (max_boost_expires (drv sys)) (max_boost_expires (drv (run_boost m2j evs sys))) \<and>
      (\<forall>k \<in> set (kickers sys).
         \<not> time_after (clock sys + m2j (duration_ms k))
              (max_boost_expires (drv (run_boost m2j evs sys)))) \<and>
      (max_boost_expires (drv (run_boost m2j evs sys)) = max_boost_expires (drv sys) \<or>
       (\<exists>k \<in> set (kickers sys).
          max_boost_expires (drv (run_boost m2j evs sys)) = clock sys + m2j (duration_ms k))))"
proof (intro conjI impI)
  assume "time_after (max_boost_expires b) (j + m2j d)"
  then show "do_cpu_input_boost_kick_max m2j b d j cs = b" by (rule kick_max_dropped)
next
  assume n: "\<not> time_after (max_boost_expires b) (j + m2j d)"
  show "do_cpu_input_boost_kick_max m2j b d j [] =
        b\<lparr>max_boost_expires := j + m2j d, max_boost_dur := d,
           max_boost_queued := Suc (max_boost_queued b)\<rparr>"
    using n by (rule kick_max_stores(1)[of b j m2j d])
  show "do_cpu_input_boost_kick_max m2j b d j ((max_boost_expires b, jn) # cs) =
        b\<lparr>max_boost_expires := j + m2j d, max_boost_dur := d,
           max_boost_queued := Suc (max_boost_queued b)\<rparr>"
    using n by (rule kick_max_stores(2)[of b j m2j d])
  show "\<not> time_after other
           (max_boost_expires (do_cpu_input_boost_kick_max m2j b d j [(other, jn)]))"
    using n by (rule kick_max_keeps_later[of b j m2j d])
  assume "other \<noteq> max_boost_expires b"
  with n show "do_cpu_input_boost_kick_max m2j b d j ((other, jn) # cs) =
           do_cpu_input_boost_kick_max m2j (b\<lparr>max_boost_expires := other\<rparr>) d jn cs"
    by (rule kick_max_disturbed[of b j m2j d])
next
  show "\<not> time_after (max_boost_expires b)
        (max_boost_expires (do_cpu_input_boost_kick_max m2j b d j []))"
    by (simp add: kick_max_expiry time_after_irrefl)
next
  assume h: "in_window base (max_boost_expires b) \<and> in_window base (ja + m2j da) \<and>
    in_window base (jb + m2j db) \<and> time_after (jb + m2j db) (ja + m2j da)"
  then have w: "in_window base (max_boost_expires b)" "in_window base (ja + m2j da)"
          "in_window base (jb + m2j db)" and lt: "time_after (jb + m2j db) (ja + m2j da)"
    by simp_all
  note ta = time_after_window[OF w(1) w(2)] time_after_window[OF w(1) w(3)]
      time_after_window[OF w(2) w(3)] time_after_window[OF w(3) w(2)]
      time_after_window[OF w(2) w(1)] time_after_window[OF w(3) w(1)]
  have lt': "uint (ja + m2j da - base) < uint (jb + m2j db - base)" using lt ta by simp
  show "max_boost_expires
        (do_cpu_input_boost_kick_max m2j (do_cpu_input_boost_kick_max m2j b da ja []) db jb []) =
      max_boost_expires
        (do_cpu_input_boost_kick_max m2j (do_cpu_input_boost_kick_max m2j b db jb []) da ja [])"
    using lt' by (simp add: kick_max_expiry ta time_after_irrefl)
  show "max_boost_expires
        (do_cpu_input_boost_kick_max m2j (do_cpu_input_boost_kick_max m2j b da ja []) db jb []) =
        (if time_after (max_boost_expires b) (jb + m2j db) then max_boost_expires b
         else jb + m2j db)"
    using lt' by (simp add: kick_max_expiry ta time_after_irrefl)
next
  assume "all_fresh sys"
  then have "\<forall>k \<in> set (kickers (run_boost m2j evs sys)). kick_local k"
    by (intro run_boost_local all_fresh_local)
  then show "\<not> time_after (max_boost_expires (drv (run_boost m2j evs sys)))
           (max_boost_expires (drv (boost_step m2j (KickStep t) (run_boost m2j evs sys))))"
    by (rule kick_step_not_earlier)
next
  assume "kickers sys = [new_kicker da, new_kicker db] \<and>
    in_window base (max_boost_expires (drv sys)) \<and>
    in_window base (clock sys + m2j da) \<and> in_window base (clock sys + m2j db) \<and>
    time_after (clock sys + m2j db) (clock sys + m2j da) \<and>
    list_all is_kick evs \<and> all_done (run_boost m2j evs sys)"
  then show "max_boost_expires (drv (run_boost m2j evs sys)) =
        (if time_after (max_boost_expires (drv sys)) (clock sys + m2j db)
         then max_boost_expires (drv sys) else clock sys + m2j db)"
    using race_two_final[of sys da db base m2j evs] by blast
next
  assume h: "all_fresh sys \<and> in_window base (max_boost_expires (drv sys)) \<and>
    (\<forall>k \<in> set (kickers sys). in_window base (clock sys + m2j (duration_ms k))) \<and>
    list_all is_kick evs \<and> all_done (run_boost m2j evs sys)"
  then have f: "all_fresh sys" and w0: "in_window base (max_boost_expires (drv sys))"
    and wd: "\<forall>k \<in> set (kickers sys). in_window base (clock sys + m2j (duration_ms k))"
    and ks: "list_all is_kick evs" and dn: "all_done (run_boost m2j evs sys)"
    by blast+
  note r = race_final[OF f w0 wd ks dn]
  show "\<not> time_after (max_boost_expires (drv sys)) (max_boost_expires (drv (run_boost m2j evs sys)))"
    using r by blast
  show "\<forall>k \<in> set (kickers sys).
         \<not> time_after (clock sys + m2j (duration_ms k))
              (max_boost_expires (drv (run_boost m2j evs sys)))"
    using r by blast
  show "max_boost_expires (drv (run_boost m2j evs sys)) = max_boost_expires (drv sys) \<or>
       (\<exists>k \<in> set (kickers sys).
          max_boost_expires (drv (run_boost m2j evs sys)) = clock sys + m2j (duration_ms k))"
    using r by blast
qed

theorem kick_max_set_if_greater_witness:
  "do_cpu_input_boost_kick_max ucast (example_boost\<lparr>max_boost_expires := 1000\<rparr>) 250 5000
       [(9000, 5001)] =
     example_boost\<lparr>max_boost_expires := 9000\<rparr> \<and>
   \<not> time_after 9000
      (max_boost_expires
         (do_cpu_input_boost_kick_max ucast (example_boost\<lparr>max_boost_expires := 1000\<rparr>) 250 5000
            [(9000, 5001)])) \<and>
   do_cpu_input_boost_kick_max ucast (example_boost\<lparr>max_boost_expires := 1000\<rparr>) 250 5000
       [(3000, 5001)] =
     example_boost\<lparr>max_boost_expires := 5251, max_boost_dur := 250, max_boost_queued := 1\<rparr> \<and>
   do_cpu_input_boost_kick_max ucast (example_boost\<lparr>max_boost_expires := 1000\<rparr>) 250 5000
       [(1000, 5001)] =
     example_boost\<lparr>max_boost_expires := 5250, max_boost_dur := 250, max_boost_queued := 1\<rparr> \<and>
   time_after (max_boost_expires (example_boost\<lparr>max_boost_expires := 6000\<rparr>))
     (5000 + ucast (250 :: cint)) \<and>
   do_cpu_input_boost_kick_max ucast (example_boost\<lparr>max_boost_expires := 6000\<rparr>) 250 5000
       [(7000, 5001)] =
     example_boost\<lparr>max_boost_expires := 6000\<rparr> \<and>
   in_window 1000 (max_boost_expires (example_boost\<lparr>max_boost_expires := 1000\<rparr>)) \<and>
   in_window 1000 (5000 + ucast (250 :: cint)) \<and> in_window 1000 (5100 + ucast (500 :: cint)) \<and>
   time_after (5100 + ucast (500 :: cint)) (5000 + ucast (250 :: cint)) \<and>
   max_boost_expires
     (do_cpu_input_boost_kick_max ucast
        (do_cpu_input_boost_kick_max ucast (example_boost\<lparr>max_boost_expires := 1000\<rparr>) 250 5000 [])
        500 5100 []) = 5600 \<and>
   max_boost_expires
     (do_cpu_input_boost_kick_max ucast
        (do_cpu_input_boost_kick_max ucast (example_boost\<lparr>max_boost_expires := 1000\<rparr>) 500 5100 [])
        250 5000 []) = 5600 \<and>
   all_fresh example_boost_system \<and>
   \<not> time_after
      (max_boost_expires
         (drv (run_boost ucast [KickStep 0, OtherStore 9000, ClockSet 5001] example_boost_system)))
      (max_boost_expires
         (drv (boost_step ucast (KickStep 0)
            (run_boost ucast [KickStep 0, OtherStore 9000, ClockSet 5001] example_boost_system)))) \<and>
   kickers example_boost_system = [new_kicker 250, new_kicker 600] \<and>
   in_window 1000 (max_boost_expires (drv example_boost_system)) \<and>
   in_window 1000 (clock example_boost_system + ucast (250 :: cint)) \<and>
   in_window 1000 (clock example_boost_system + ucast (600 :: cint)) \<and>
   time_after (clock example_boost_system + ucast (600 :: cint))
     (clock example_boost_system + ucast (250 :: cint)) \<and>
   list_all is_kick example_race_late_first \<and>
   all_done (run_boost ucast example_race_late_first example_boost_system) \<and>
   max_boost_expires (drv (run_boost ucast example_race_late_first example_boost_system)) = 5600 \<and>
   list_all is_kick example_race_early_first \<and>
   all_done (run_boost ucast example_race_early_first example_boost_system) \<and>
   max_boost_expires (drv (run_boost ucast example_race_early_first example_boost_system)) = 5600 \<and>
   \<not> time_after (clock example_boost_system + ucast (250 :: cint))
      (max_boost_expires (drv (run_boost ucast example_race_early_first example_boost_system)))"
proof -
  let ?b = "example_boost\<lparr>max_boost_expires := 1000\<rparr>"
  let ?c = "example_boost\<lparr>max_boost_expires := 6000\<rparr>"
  let ?sys = example_boost_system
  let ?late = "run_boost ucast example_race_late_first ?sys"
  let ?early = "run_boost ucast example_race_early_first ?sys"
  let ?pre = "[KickStep 0, OtherStore 9000, ClockSet 5001]"
  have n0: "\<not> time_after (max_boost_expires ?b) (5000 + ucast (250 :: cint))"
    by (simp add: time_after_def)
  have ne9: "(9000 :: ulong) \<noteq> max_boost_expires ?b" and ne3: "(3000 :: ulong) \<noteq> max_boost_expires ?b"
    by simp_all
  have d9: "time_after (max_boost_expires (?b\<lparr>max_boost_expires := 9000\<rparr>))
              (5001 + ucast (250 :: cint))"
    by (simp add: time_after_def)
  have n3: "\<not> time_after (max_boost_expires (?b\<lparr>max_boost_expires := 3000\<rparr>))
              (5001 + ucast (250 :: cint))"
    by (simp add: time_after_def)
  \<comment> \<open>the exchange fails, the loop runs again and finds the later expiry\<close>
  note s9000 = kick_max_set_if_greater[where b = ?b and j = 5000 and m2j = ucast and d = 250
      and cs = "[]" and jn = 5001 and other = 9000, THEN conjunct2, THEN conjunct1, THEN mp, OF n0]
  note s3000 = kick_max_set_if_greater[where b = ?b and j = 5000 and m2j = ucast and d = 250
      and cs = "[]" and jn = 5001 and other = 3000, THEN conjunct2, THEN conjunct1, THEN mp, OF n0]
  note s0 = kick_max_set_if_greater[where b = ?b and j = 5000 and m2j = ucast and d = 250
      and cs = "[]" and jn = 5001 and other = 0, THEN conjunct2, THEN conjunct1, THEN mp, OF n0]
  have r9: "do_cpu_input_boost_kick_max ucast ?b 250 5000 [(9000, 5001)] =
            do_cpu_input_boost_kick_max ucast (?b\<lparr>max_boost_expires := 9000\<rparr>) 250 5001 []"
    using s9000[ THEN conjunct2, THEN conjunct2, THEN conjunct1] ne9 by blast
  have k9: "do_cpu_input_boost_kick_max ucast (?b\<lparr>max_boost_expires := 9000\<rparr>) 250 5001 [] =
            ?b\<lparr>max_boost_expires := 9000\<rparr>"
    using kick_max_set_if_greater[where b = "?b\<lparr>max_boost_expires := 9000\<rparr>" and j = 5001
        and m2j = ucast and d = 250 and cs = "[]",
        THEN conjunct1] d9 by blast
  have c1: "do_cpu_input_boost_kick_max ucast ?b 250 5000 [(9000, 5001)] =
            example_boost\<lparr>max_boost_expires := 9000\<rparr>"
    unfolding r9 k9 by simp
  have c2: "\<not> time_after 9000
      (max_boost_expires (do_cpu_input_boost_kick_max ucast ?b 250 5000 [(9000, 5001)]))"
    using s9000[ THEN conjunct2, THEN conjunct2, THEN conjunct2] .
  \<comment> \<open>the exchange fails, the loop runs again and stores\<close>
  have r3: "do_cpu_input_boost_kick_max ucast ?b 250 5000 [(3000, 5001)] =
            do_cpu_input_boost_kick_max ucast (?b\<lparr>max_boost_expires := 3000\<rparr>) 250 5001 []"
    using s3000[ THEN conjunct2, THEN conjunct2, THEN conjunct1] ne3 by blast
  have k3: "do_cpu_input_boost_kick_max ucast (?b\<lparr>max_boost_expires := 3000\<rparr>) 250 5001 [] =
            ?b\<lparr>max_boost_expires := 3000\<rparr>\<lparr>max_boost_expires := 5001 + ucast (250 :: cint),
              max_boost_dur := 250,
              max_boost_queued := Suc (max_boost_queued (?b\<lparr>max_boost_expires := 3000\<rparr>))\<rparr>"
    using kick_max_set_if_greater[where b = "?b\<lparr>max_boost_expires := 3000\<rparr>" and j = 5001
        and m2j = ucast and d = 250,
        THEN conjunct2, THEN conjunct1, THEN mp, OF n3, THEN conjunct1] .
  have c3: "do_cpu_input_boost_kick_max ucast ?b 250 5000 [(3000, 5001)] =
     example_boost\<lparr>max_boost_expires := 5251, max_boost_dur := 250, max_boost_queued := 1\<rparr>"
    unfolding r3 k3 by (simp add: example_boost_def)
  \<comment> \<open>another CPU stored the value that was read: the exchange succeeds\<close>
  have "do_cpu_input_boost_kick_max ucast ?b 250 5000 ((max_boost_expires ?b, 5001) # []) =
     ?b\<lparr>max_boost_expires := 5000 + ucast (250 :: cint), max_boost_dur := 250,
        max_boost_queued := Suc (max_boost_queued ?b)\<rparr>"
    using s0[ THEN conjunct2, THEN conjunct1] .
  then have c4: "do_cpu_input_boost_kick_max ucast ?b 250 5000 [(1000, 5001)] =
     example_boost\<lparr>max_boost_expires := 5250, max_boost_dur := 250, max_boost_queued := 1\<rparr>"
    by (simp add: example_boost_def)
  \<comment> \<open>a later expiry is stored: the request is dropped\<close>
  have dr: "time_after (max_boost_expires ?c) (5000 + ucast (250 :: cint))"
    by (simp add: time_after_def)
  have c5: "do_cpu_input_boost_kick_max ucast ?c 250 5000 [(7000, 5001)] = ?c"
    using kick_max_set_if_greater[where b = ?c and j = 5000 and m2j = ucast and d = 250
        and cs = "[(7000, 5001)]", THEN conjunct1] dr
    by blast
  \<comment> \<open>two requests, one after the other, in both orders\<close>
  have w: "in_window 1000 (max_boost_expires ?b)" "in_window 1000 (5000 + ucast (250 :: cint))"
    "in_window 1000 (5100 + ucast (500 :: cint))"
    by (simp_all add: in_window_def)
  have lt: "time_after (5100 + ucast (500 :: cint)) (5000 + ucast (250 :: cint))"
    by (simp add: time_after_def)
  have nl: "\<not> time_after (max_boost_expires ?b) (5100 + ucast (500 :: cint))"
    by (simp add: time_after_def)
  have pre: "in_window 1000 (max_boost_expires ?b) \<and> in_window 1000 (5000 + ucast (250 :: cint)) \<and>
    in_window 1000 (5100 + ucast (500 :: cint)) \<and>
    time_after (5100 + ucast (500 :: cint)) (5000 + ucast (250 :: cint))"
    using w lt by blast
  note t1 = kick_max_set_if_greater[where b = ?b and m2j = ucast and base = 1000 and ja = 5000
      and da = 250 and jb = 5100 and db = 500,
      THEN conjunct2, THEN conjunct2, THEN conjunct2, THEN conjunct1, THEN mp, OF pre]
  have a: "max_boost_expires
     (do_cpu_input_boost_kick_max ucast (do_cpu_input_boost_kick_max ucast ?b 250 5000 []) 500 5100 []) =
      5100 + ucast (500 :: cint)"
    using t1[THEN conjunct2] nl by simp
  have a': "max_boost_expires
     (do_cpu_input_boost_kick_max ucast (do_cpu_input_boost_kick_max ucast ?b 500 5100 []) 250 5000 []) =
      5100 + ucast (500 :: cint)"
    using t1[THEN conjunct1] a by simp
  \<comment> \<open>concurrent requests\<close>
  have fr: "all_fresh ?sys"
    by (simp add: all_fresh_def example_boost_system_def new_kicker_def)
  have c6: "\<not> time_after (max_boost_expires (drv (run_boost ucast ?pre ?sys)))
      (max_boost_expires (drv (boost_step ucast (KickStep 0) (run_boost ucast ?pre ?sys))))"
    using kick_max_set_if_greater[where m2j = ucast and sys = ?sys and evs = ?pre and t = 0,
        THEN conjunct2, THEN conjunct2, THEN conjunct2, THEN conjunct2, THEN conjunct1,
        THEN mp, OF fr] .
  have ks: "kickers ?sys = [new_kicker 250, new_kicker 600]"
    by (simp add: example_boost_system_def)
  have sw: "in_window 1000 (max_boost_expires (drv ?sys))"
    "in_window 1000 (clock ?sys + ucast (250 :: cint))"
    "in_window 1000 (clock ?sys + ucast (600 :: cint))"
    by (simp_all add: in_window_def example_boost_system_def)
  have slt: "time_after (clock ?sys + ucast (600 :: cint)) (clock ?sys + ucast (250 :: cint))"
    by (simp add: time_after_def example_boost_system_def)
  have snl: "\<not> time_after (max_boost_expires (drv ?sys)) (clock ?sys + ucast (600 :: cint))"
    by (simp add: time_after_def example_boost_system_def)
  have e600: "clock ?sys + ucast (600 :: cint) = 5600"
    by (simp add: example_boost_system_def)
  have kl: "list_all is_kick example_race_late_first"
    by (simp add: example_race_late_first_def is_kick_def)
  have ke: "list_all is_kick example_race_early_first"
    by (simp add: example_race_early_first_def is_kick_def)
  have dl: "all_done ?late"
    unfolding example_race_late_first_run by (simp add: all_done_def)
  have de: "all_done ?early"
    unfolding example_race_early_first_run by (simp add: all_done_def)
  have prel: "kickers ?sys = [new_kicker 250, new_kicker 600] \<and>
    in_window 1000 (max_boost_expires (drv ?sys)) \<and>
    in_window 1000 (clock ?sys + ucast (250 :: cint)) \<and>
    in_window 1000 (clock ?sys + ucast (600 :: cint)) \<and>
    time_after (clock ?sys + ucast (600 :: cint)) (clock ?sys + ucast (250 :: cint)) \<and>
    list_all is_kick example_race_late_first \<and> all_done ?late"
    using ks sw slt kl dl by blast
  have pree: "kickers ?sys = [new_kicker 250, new_kicker 600] \<and>
    in_window 1000 (max_boost_expires (drv ?sys)) \<and>
    in_window 1000 (clock ?sys + ucast (250 :: cint)) \<and>
    in_window 1000 (clock ?sys + ucast (600 :: cint)) \<and>
    time_after (clock ?sys + ucast (600 :: cint)) (clock ?sys + ucast (250 :: cint)) \<and>
    list_all is_kick example_race_early_first \<and> all_done ?early"
    using ks sw slt ke de by blast
  have fl: "max_boost_expires (drv ?late) = 5600"
    using kick_max_set_if_greater[where m2j = ucast and base = 1000 and da = 250 and db = 600
        and sys = ?sys and evs = example_race_late_first,
        THEN conjunct2, THEN conjunct2, THEN conjunct2, THEN conjunct2, THEN conjunct2,
        THEN conjunct1, THEN mp, OF prel] snl e600 by simp
  have fe: "max_boost_expires (drv ?early) = 5600"
    using kick_max_set_if_greater[where m2j = ucast and base = 1000 and da = 250 and db = 600
        and sys = ?sys and evs = example_race_early_first,
        THEN conjunct2, THEN conjunct2, THEN conjunct2, THEN conjunct2, THEN conjunct2,
        THEN conjunct1, THEN mp, OF pree] snl e600 by simp
  have wb: "\<forall>k \<in> set (kickers ?sys). in_window 1000 (clock ?sys + ucast (duration_ms k))"
    using sw by (simp add: ks new_kicker_def)
  have preg: "all_fresh ?sys \<and> in_window 1000 (max_boost_expires (drv ?sys)) \<and>
    (\<forall>k \<in> set (kickers ?sys). in_window 1000 (clock ?sys + ucast (duration_ms k))) \<and>
    list_all is_kick example_race_early_first \<and> all_done ?early"
    using fr sw(1) wb ke de by blast
  note g = kick_max_set_if_greater[where m2j = ucast and base = 1000 and sys = ?sys
        and evs = example_race_early_first,
        THEN conjunct2, THEN conjunct2, THEN conjunct2, THEN conjunct2, THEN conjunct2,
        THEN conjunct2, THEN mp, OF preg]
  have "new_kicker 250 \<in> set (kickers ?sys)" by (simp add: ks)
  with g[THEN conjunct2, THEN conjunct1]
  have "\<not> time_after (clock ?sys + ucast (duration_ms (new_kicker 250)))
      (max_boost_expires (drv ?early))"
    by blast
  then have c7: "\<not> time_after (clock ?sys + ucast (250 :: cint)) (max_boost_expires (drv ?early))"
    by (simp add: new_kicker_def)
  have a5600: "(5100 :: ulong) + ucast (500 :: cint) = 5600" by simp
  show ?thesis
    apply (intro conjI)
    apply (rule c1) apply (rule c2) apply (rule c3) apply (rule c4) apply (rule dr)
    apply (rule c5) apply (rule w(1)) apply (rule w(2)) apply (rule w(3)) apply (rule lt)
    apply (rule a[unfolded a5600]) apply (rule a'[unfolded a5600]) apply (rule fr)
    apply (rule c6) apply (rule ks) apply (rule sw(1)) apply (rule sw(2)) apply (rule sw(3))
    apply (rule slt) apply (rule kl) apply (rule dl) apply (rule fl) apply (rule ke)
    apply (rule de) apply (rule fe) apply (rule c7)
    done
qed


section \<open>Mutual exclusion of the passes\<close>

lemma filter_update_length:
  "t < length xs \<Longrightarrow>
     length (filter P (xs[t := p])) + (if P (xs ! t) then 1 else 0) =
     length (filter P xs) + (if P p then 1 else 0)"
proof (induction xs arbitrary: t)
  case Nil
  then show ?case by simp
next
  case (Cons x xs)
  show ?case
  proof (cases t)
    case 0
    then show ?thesis by simp
  next
    case (Suc n)
    with Cons.prems have "n < length xs" by simp
    from Cons.IH[OF this] Suc show ?thesis by simp
  qed
qed

lemma in_pass_holds: "in_pass p \<Longrightarrow> holds_lock p"
  by (cases p) (simp_all add: in_pass_def holds_lock_def)

lemma filter_in_pass_le: "length (filter in_pass ps) \<le> length (filter holds_lock ps)"
  by (induction ps) (auto dest: in_pass_holds)

lemma thread_step_lock:
  assumes "thread_step cfg p s = (p', s')"
  shows "(holds_lock p' \<and> \<not> holds_lock p \<longrightarrow> \<not> reclaim_lock s \<and> reclaim_lock s') \<and>
         (\<not> holds_lock p' \<and> holds_lock p \<longrightarrow> \<not> reclaim_lock s') \<and>
         (holds_lock p' = holds_lock p \<longrightarrow> reclaim_lock s' = reclaim_lock s)"
proof (cases p)
  case Idle
  with assms show ?thesis by auto
next
  case (AtLock k)
  with assms show ?thesis
    by (cases k) (auto simp: holds_lock_def mutex_lock_def mutex_trylock_def split: if_splits)
next
  case (Holding k)
  with assms show ?thesis by (auto simp: holds_lock_def split: if_splits)
next
  case (Reclaiming k)
  obtain s2 mib where d: "do_lmk_reclaim cfg (MIN_FREE_PAGES cfg) s = (s2, mib)"
    by (cases "do_lmk_reclaim cfg (MIN_FREE_PAGES cfg) s")
  have "reclaim_lock s2 = reclaim_lock s"
    using do_lmk_reclaim_frame[of s cfg "MIN_FREE_PAGES cfg"] by (simp add: d same_engine_def)
  with assms Reclaiming d show ?thesis by (auto simp: holds_lock_def)
next
  case (Unlocking k m)
  with assms show ?thesis by (auto simp: holds_lock_def mutex_unlock_def)
next
  case (Finishing k m)
  with assms show ?thesis
    by (cases k; cases "m = 0")
       (auto simp: holds_lock_def pr_info_def emit_def queue_delayed_work_def Let_def)
qed

lemma invoke_lock:
  "invoke k s = (p, s') \<Longrightarrow> \<not> holds_lock p \<and> reclaim_lock s' = reclaim_lock s"
  by (cases k) (auto simp: holds_lock_def split: if_splits)

lemma sched_step_lock_inv:
  assumes "lock_inv c"
  shows "lock_inv (sched_step cfg ev c)"
proof (cases ev)
  case (Invoke t k)
  show ?thesis
  proof (cases "t < length (threads c) \<and> threads c ! t = Idle")
    case False
    with Invoke assms show ?thesis by (auto simp: sched_step_def)
  next
    case True
    obtain p s where i: "invoke k (engine c) = (p, s)" by (cases "invoke k (engine c)")
    from invoke_lock[OF i] have np: "\<not> holds_lock p" and l: "reclaim_lock s = reclaim_lock (engine c)"
      by simp_all
    have ni: "\<not> holds_lock (threads c ! t)" using True by (simp add: holds_lock_def)
    from filter_update_length[of t "threads c" holds_lock p] True np ni
    have "length (filter holds_lock ((threads c)[t := p])) = length (filter holds_lock (threads c))"
      by simp
    with assms l show ?thesis using True Invoke i by (simp add: sched_step_def lock_inv_def)
  qed
next
  case (Step t)
  show ?thesis
  proof (cases "t < length (threads c)")
    case False
    with Step assms show ?thesis by (simp add: sched_step_def)
  next
    case True
    obtain p s where i: "thread_step cfg (threads c ! t) (engine c) = (p, s)"
      by (cases "thread_step cfg (threads c ! t) (engine c)")
    note tl = thread_step_lock[OF i]
    note fu = filter_update_length[OF True, of holds_lock p]
    have mem: "holds_lock (threads c ! t) \<Longrightarrow> 0 < length (filter holds_lock (threads c))"
      using True nth_mem[of t "threads c"] by (auto simp: filter_empty_conv)
    have "length (filter holds_lock ((threads c)[t := p])) = (if reclaim_lock s then 1 else 0)"
    proof (cases "holds_lock p")
      case hp: True
      show ?thesis
      proof (cases "holds_lock (threads c ! t)")
        case True
        with hp tl fu assms show ?thesis by (simp add: lock_inv_def)
      next
        case False
        with hp tl fu assms show ?thesis by (simp add: lock_inv_def)
      qed
    next
      case hp: False
      show ?thesis
      proof (cases "holds_lock (threads c ! t)")
        case h: True
        from mem[OF h] assms have "reclaim_lock (engine c)" "length (filter holds_lock (threads c)) = 1"
          by (auto simp: lock_inv_def split: if_splits)
        with hp h tl fu show ?thesis by simp
      next
        case False
        with hp tl fu assms show ?thesis by (simp add: lock_inv_def)
      qed
    qed
    then show ?thesis using True Step i by (simp add: sched_step_def lock_inv_def)
  qed
next
  case ClockTick
  with assms show ?thesis by (simp add: sched_step_def lock_inv_def)
qed

lemma run_sched_lock_inv: "lock_inv c \<Longrightarrow> lock_inv (run_sched cfg evs c)"
  by (induction evs arbitrary: c) (simp_all add: sched_step_lock_inv)

lemma quiescent_lock_inv: "quiescent c \<Longrightarrow> lock_inv c"
proof -
  assume q: "quiescent c"
  then have "\<forall>p \<in> set (threads c). p = Idle" by (auto simp: quiescent_def filter_empty_conv)
  then have "filter holds_lock (threads c) = []" by (auto simp: filter_empty_conv holds_lock_def)
  with q show ?thesis by (simp add: lock_inv_def quiescent_def)
qed


lemma tier_loop_step:
  "tier_loop needed i s freed = (s', f') \<Longrightarrow> list_all2 scan_step (tasks s) (tasks s')"
proof (induction needed i s freed arbitrary: s' f' rule: tier_loop.induct)
  case (1 needed i s freed)
  show ?case
  proof (cases "i < length adj_prio")
    case False
    with "1.prems" show ?thesis by (simp add: tier_loop.simps scan_step_refl)
  next
    case True
    obtain s1 r where sk: "scan_and_kill (scast (adj_prio ! i)) (scast (adj_prio ! (i - 1)))
                (needed - freed) s = (s1, r)"
      by (cases "scan_and_kill (scast (adj_prio ! i)) (scast (adj_prio ! (i - 1))) (needed - freed) s")
    have f1: "list_all2 scan_step (tasks s) (tasks s1)"
      using scan_and_kill_step[of s "scast (adj_prio ! i)" "scast (adj_prio ! (i - 1))" "needed - freed"]
      unfolding sk by simp
    show ?thesis
    proof (cases "needed \<le> freed + r")
      case met: True
      with "1.prems" True sk have "s' = s1" by (simp add: tier_loop.simps)
      with f1 show ?thesis by simp
    next
      case False
      with "1.prems" True sk have rec: "tier_loop needed (Suc i) s1 (freed + r) = (s', f')"
        by (simp add: tier_loop.simps)
      from "1.IH"[OF True sk[symmetric] False rec] have f2: "list_all2 scan_step (tasks s1) (tasks s')" .
      show ?thesis by (rule list_all2_trans[OF _ f1 f2]) (rule scan_step_trans)
    qed
  qed
qed

lemma do_lmk_reclaim_step:
  "list_all2 scan_step (tasks s) (tasks (fst (do_lmk_reclaim cfg needed s)))"
proof -
  let ?s2 = "devfreq_boost_kick_max DEVFREQ_MSM_CPUBW BOOST_DURATION_MS
                (cpu_input_boost_kick_max cfg BOOST_DURATION_MS s)"
  obtain s3 f where tl: "tier_loop needed 1 ?s2 0 = (s3, f)"
    by (cases "tier_loop needed 1 ?s2 0")
  have d: "do_lmk_reclaim cfg needed s =
             (s3\<lparr>last_reclaim_jiffies := jiffies s3\<rparr>, f * PAGE_SIZE cfg div SZ_1M)"
    unfolding do_lmk_reclaim_def Let_def tl by simp
  from tier_loop_step[OF tl] show ?thesis by (simp add: d boost_kicks_tasks)
qed

lemma thread_step_tasks:
  assumes "thread_step cfg p s = (p', s')"
  shows "list_all2 scan_step (tasks s) (tasks s')"
proof (cases p)
  case Idle
  with assms show ?thesis by (auto simp: scan_step_refl)
next
  case (AtLock k)
  with assms show ?thesis
    by (cases k) (auto simp: mutex_lock_def mutex_trylock_def scan_step_refl split: if_splits)
next
  case (Holding k)
  with assms show ?thesis by (auto simp: scan_step_refl split: if_splits)
next
  case (Reclaiming k)
  with assms do_lmk_reclaim_step[of s cfg "MIN_FREE_PAGES cfg"] show ?thesis
    by (auto split: prod.splits)
next
  case (Unlocking k m)
  with assms show ?thesis by (auto simp: mutex_unlock_def scan_step_refl)
next
  case (Finishing k m)
  with assms show ?thesis
    by (cases k; cases "m = 0")
       (auto simp: pr_info_def emit_def queue_delayed_work_def Let_def scan_step_refl)
qed

lemma sched_step_tasks: "list_all2 scan_step (tasks (engine c)) (tasks (engine (sched_step cfg ev c)))"
proof (cases ev)
  case (Invoke t k)
  then show ?thesis
    by (cases k) (auto simp: sched_step_def scan_step_refl split: prod.splits)
next
  case (Step t)
  then show ?thesis
    by (auto simp: sched_step_def scan_step_refl split: prod.splits dest: thread_step_tasks)
next
  case ClockTick
  then show ?thesis by (simp add: sched_step_def scan_step_refl)
qed

lemma run_sched_tasks: "list_all2 scan_step (tasks (engine c)) (tasks (engine (run_sched cfg evs c)))"
proof (induction evs arbitrary: c)
  case Nil
  show ?case by (simp add: scan_step_refl)
next
  case (Cons ev evs)
  have 1: "list_all2 scan_step (tasks (engine c)) (tasks (engine (sched_step cfg ev c)))"
    by (rule sched_step_tasks)
  have 2: "list_all2 scan_step (tasks (engine (sched_step cfg ev c)))
             (tasks (engine (run_sched cfg (ev # evs) c)))"
    using Cons.IH[of "sched_step cfg ev c"] by simp
  show ?case by (rule list_all2_trans[OF _ 1 2]) (rule scan_step_trans)
qed

lemma filter_nonempty_length: "x \<in> set xs \<Longrightarrow> P x \<Longrightarrow> 1 \<le> length (filter P xs)"
  by (induction xs) auto

lemma two_in_filter:
  assumes "i < j" "j < length xs" "P (xs ! i)" "P (xs ! j)"
  shows "2 \<le> length (filter P xs)"
proof -
  have "xs ! i \<in> set (take j xs)"
    using assms(1,2) by (auto simp: in_set_conv_nth intro!: exI[of _ i])
  then have a: "1 \<le> length (filter P (take j xs))" using assms(3) by (rule filter_nonempty_length)
  have "xs ! j \<in> set (drop j xs)"
    using assms(2) by (simp add: Cons_nth_drop_Suc[symmetric])
  then have b: "1 \<le> length (filter P (drop j xs))" using assms(4) by (rule filter_nonempty_length)
  have "length (filter P xs) = length (filter P (take j xs)) + length (filter P (drop j xs))"
    by (metis append_take_drop_id filter_append length_append)
  with a b show ?thesis by simp
qed

text \<open>
  Claim C1. From a start in which no thread is in a trigger and the lock is free, after
  any interleaving of any number of threads running the periodic and the urgent trigger
  (and of clock ticks) at most one thread is inside \<open>do_lmk_reclaim\<close>: no two threads are
  inside a pass at the same time. The number of threads between taking and releasing
  \<open>reclaim_lock\<close> is one when the lock is held and zero when it is free. Over the whole
  interleaving no process receives more than one SIGKILL from the engine, so no footprint
  is counted twice. Every prefix of an interleaving is an interleaving, so this holds at
  every instant.
\<close>

theorem reclaim_passes_never_overlap:
  assumes "quiescent c"
  shows "length (filter in_pass (threads (run_sched cfg evs c))) \<le> 1 \<and>
         (\<forall>i j. i < j \<and> j < length (threads (run_sched cfg evs c)) \<longrightarrow>
            \<not> (in_pass (threads (run_sched cfg evs c) ! i) \<and>
               in_pass (threads (run_sched cfg evs c) ! j))) \<and>
         length (filter holds_lock (threads (run_sched cfg evs c))) =
           (if reclaim_lock (engine (run_sched cfg evs c)) then 1 else 0) \<and>
         length (tasks (engine (run_sched cfg evs c))) = length (tasks (engine c)) \<and>
         (\<forall>i < length (tasks (engine c)).
            sigkills_delivered (tasks (engine (run_sched cfg evs c)) ! i)
              \<le> Suc (sigkills_delivered (tasks (engine c) ! i)))"
proof -
  let ?c = "run_sched cfg evs c"
  have inv: "lock_inv ?c" using assms by (intro run_sched_lock_inv quiescent_lock_inv)
  then have hl: "length (filter holds_lock (threads ?c)) = (if reclaim_lock (engine ?c) then 1 else 0)"
    by (simp add: lock_inv_def)
  have "length (filter in_pass (threads ?c)) \<le> length (filter holds_lock (threads ?c))"
    by (rule filter_in_pass_le)
  with hl have one: "length (filter in_pass (threads ?c)) \<le> 1" by (simp split: if_splits)
  have pair: "\<not> (in_pass (threads ?c ! i) \<and> in_pass (threads ?c ! j))"
    if "i < j \<and> j < length (threads ?c)" for i j
  proof
    assume "in_pass (threads ?c ! i) \<and> in_pass (threads ?c ! j)"
    with that have "2 \<le> length (filter in_pass (threads ?c))"
      using two_in_filter[of i j "threads ?c" in_pass] by simp
    with one show False by simp
  qed
  have st: "list_all2 scan_step (tasks (engine c)) (tasks (engine ?c))" by (rule run_sched_tasks)
  then have len: "length (tasks (engine ?c)) = length (tasks (engine c))"
    by (simp add: list_all2_lengthD)
  have sig: "sigkills_delivered (tasks (engine ?c) ! i) \<le> Suc (sigkills_delivered (tasks (engine c) ! i))"
    if "i < length (tasks (engine c))" for i
  proof -
    have "scan_step (tasks (engine c) ! i) (tasks (engine ?c) ! i)"
      using st that by (rule list_all2_nthD)
    then show ?thesis by (auto simp: scan_step_def)
  qed
  from one pair hl len sig show ?thesis by blast
qed

text \<open>A thread running alone does what the functions of the triggers do.\<close>

lemma unlock_free: "\<not> reclaim_lock s \<Longrightarrow> s\<lparr>reclaim_lock := False\<rparr> = s"
  by (cases s) simp

lemma solo_urgent:
  assumes "simple_lmk_force_reclaim cfg s = Returns s'"
  shows "run_sched cfg [Invoke 0 Urgent, Step 0, Step 0, Step 0, Step 0, Step 0]
           \<lparr>engine = s, threads = [Idle]\<rparr> = \<lparr>engine = s', threads = [Idle]\<rparr>"
proof (cases "simple_lmk_ready s = 0")
  case True
  with assms have "s' = s" by (simp add: simple_lmk_force_reclaim_def)
  with True show ?thesis by (simp add: sched_step_def)
next
  case ready: False
  show ?thesis
  proof (cases "reclaim_lock s")
    case True
    with assms ready have "s' = s" by (simp add: simple_lmk_force_reclaim_def mutex_trylock_def)
    with True ready show ?thesis by (simp add: sched_step_def mutex_trylock_def)
  next
    case free: False
    let ?s1 = "s\<lparr>reclaim_lock := True\<rparr>"
    show ?thesis
    proof (cases "time_after_eq (jiffies s) (last_reclaim_jiffies s + LMK_OOM_TIMEOUT cfg)")
      case False
      with assms ready free have "s' = s"
        by (simp add: simple_lmk_force_reclaim_def mutex_trylock_def mutex_unlock_def unlock_free)
      with False ready free show ?thesis
        by (simp add: sched_step_def mutex_trylock_def mutex_unlock_def timeout_of_def unlock_free)
    next
      case True
      obtain s2 mib where d: "do_lmk_reclaim cfg (MIN_FREE_PAGES cfg) ?s1 = (s2, mib)"
        by (cases "do_lmk_reclaim cfg (MIN_FREE_PAGES cfg) ?s1")
      from assms ready free True d have
        "s' = (if mib \<noteq> 0 then pr_info ''oom: freed %lu MiB'' mib (mutex_unlock s2)
               else mutex_unlock s2)"
        by (simp add: simple_lmk_force_reclaim_def mutex_trylock_def Let_def)
      with True ready free d show ?thesis
        by (simp add: sched_step_def mutex_trylock_def timeout_of_def)
    qed
  qed
qed

lemma solo_periodic:
  assumes "simple_lmk_reclaim_work cfg (s\<lparr>reclaim_work_queued := False\<rparr>) = Returns s'"
  shows "run_sched cfg [Invoke 0 Periodic, Step 0, Step 0, Step 0, Step 0, Step 0]
           \<lparr>engine = s, threads = [Idle]\<rparr> = \<lparr>engine = s', threads = [Idle]\<rparr>"
proof -
  let ?s0 = "s\<lparr>reclaim_work_queued := False\<rparr>"
  let ?s1 = "?s0\<lparr>reclaim_lock := True\<rparr>"
  have free: "\<not> reclaim_lock s"
    using assms by (auto simp: simple_lmk_reclaim_work_def mutex_lock_def split: if_splits)
  show ?thesis
  proof (cases "time_after_eq (jiffies s) (last_reclaim_jiffies s + LMK_KSWAPD_TIMEOUT cfg)")
    case False
    with assms free have
      "s' = queue_delayed_work (LMK_KSWAPD_TIMEOUT cfg) (mutex_unlock ?s1)"
      by (simp add: simple_lmk_reclaim_work_def mutex_lock_def Let_def)
    with False free show ?thesis
      by (simp add: sched_step_def mutex_lock_def timeout_of_def)
  next
    case True
    obtain s2 mib where d: "do_lmk_reclaim cfg (MIN_FREE_PAGES cfg) ?s1 = (s2, mib)"
      by (cases "do_lmk_reclaim cfg (MIN_FREE_PAGES cfg) ?s1")
    from assms free True d have
      "s' = queue_delayed_work (LMK_KSWAPD_TIMEOUT cfg)
              (if mib \<noteq> 0 then pr_info ''kswapd: freed %lu MiB'' mib (mutex_unlock s2)
               else mutex_unlock s2)"
      by (simp add: simple_lmk_reclaim_work_def mutex_lock_def Let_def)
    with True free d show ?thesis
      by (simp add: sched_step_def mutex_lock_def timeout_of_def)
  qed
qed

lemma solo_periodic_blocks:
  "reclaim_lock s \<Longrightarrow>
     simple_lmk_reclaim_work cfg (s\<lparr>reclaim_work_queued := False\<rparr>) = Blocks \<and>
     threads (run_sched cfg (Invoke 0 Periodic # replicate n (Step 0)) \<lparr>engine = s, threads = [Idle]\<rparr>)
       = [AtLock Periodic]"
proof -
  assume l: "reclaim_lock s"
  have "run_sched cfg (replicate n (Step 0)) \<lparr>engine = s0, threads = [AtLock Periodic]\<rparr>
          = \<lparr>engine = s0, threads = [AtLock Periodic]\<rparr>" if "reclaim_lock s0" for s0
    using that by (induction n) (simp_all add: sched_step_def mutex_lock_def)
  from this[of "s\<lparr>reclaim_work_queued := False\<rparr>"] l show ?thesis
    by (simp add: sched_step_def simple_lmk_reclaim_work_def mutex_lock_def)
qed


lemmas conc_defs = sched_step_def timeout_of_def mutex_lock_def queue_delayed_work_def
  example_system_def example_schedule_def

lemma example_schedule_mid:
  "threads (run_sched example_cfg (take 9 example_schedule) example_system) =
     [Reclaiming Periodic, AtLock Urgent, AtLock Periodic] \<and>
   threads (run_sched example_cfg (take 10 example_schedule) example_system) =
     [Reclaiming Periodic, Idle, AtLock Periodic]"
  by (simp add: conc_defs trigger_defs ex_defs)

lemma example_schedule_end:
  "threads (run_sched example_cfg example_schedule example_system) =
     [Idle, Idle, Unlocking Periodic 0] \<and>
   map sigkills_delivered (tasks (engine (run_sched example_cfg example_schedule example_system))) =
     [1, 1, 0, 0, 0, 0]"
  by (simp add: conc_defs trigger_defs ex_defs scan_defs pass_defs do_cpu_input_boost_kick_max.simps)

theorem reclaim_passes_never_overlap_witness:
  "quiescent example_system \<and>
   threads (run_sched example_cfg (take 9 example_schedule) example_system) =
     [Reclaiming Periodic, AtLock Urgent, AtLock Periodic] \<and>
   length (filter in_pass (threads (run_sched example_cfg (take 9 example_schedule) example_system))) = 1 \<and>
   reclaim_lock (engine (run_sched example_cfg (take 9 example_schedule) example_system)) \<and>
   threads (run_sched example_cfg (take 10 example_schedule) example_system) =
     [Reclaiming Periodic, Idle, AtLock Periodic] \<and>
   map sigkills_delivered (tasks (engine (run_sched example_cfg example_schedule example_system))) =
     [1, 1, 0, 0, 0, 0]"
proof -
  have q: "quiescent example_system"
    by (simp add: quiescent_def example_system_def example_state_def)
  note t = reclaim_passes_never_overlap[OF q, of example_cfg "take 9 example_schedule",
      THEN conjunct2, THEN conjunct2, THEN conjunct1]
  have h: "length (filter holds_lock (threads (run_sched example_cfg (take 9 example_schedule) example_system))) = 1"
    by (simp add: example_schedule_mid holds_lock_def)
  have l: "reclaim_lock (engine (run_sched example_cfg (take 9 example_schedule) example_system))"
    using t unfolding h by (simp split: if_splits)
  have p: "length (filter in_pass (threads (run_sched example_cfg (take 9 example_schedule) example_system))) = 1"
    by (simp add: example_schedule_mid in_pass_def)
  from q l p show ?thesis by (simp add: example_schedule_mid example_schedule_end)
qed

end
